theory Spec2Isabelle
  imports Complex_Main "HOL-Library.Word" "HOL-Library.AList" "HOL-Library.Sublist"
begin

unbundle bit_operations_syntax

section \<open>Exceptions of the Python code as values\<close>

text \<open>
  Every exception a modelled function can raise is a constructor. The source raises
  Python's built-in exceptions; the constructor names say which failure of the design
  each one is:
  \<^item> \<open>EmptyInput\<close>: \<^verbatim>\<open>ValueError('`paths` must not be empty')\<close> of \<^verbatim>\<open>MultiFiles.__init__\<close>;
  \<^item> \<open>ConfigurationMissing\<close>: the \<^verbatim>\<open>IOError\<close> of \<^verbatim>\<open>MultiFiles.__init__\<close>;
  \<^item> \<open>MissingReference\<close>: the two \<^verbatim>\<open>ValueError\<close>s of \<^verbatim>\<open>EventTimeCalculator\<close>
    about a missing reference;
  \<^item> \<open>StopIteration\<close>, \<open>IndexError\<close>, \<open>KeyError\<close>, \<open>TypeError\<close>: Python's own, raised
    by \<^verbatim>\<open>next\<close>, by an index out of range, by a missing dictionary key and by
    arithmetic on \<^verbatim>\<open>None\<close>;
  \<^item> \<open>FloatToInt\<close>: the \<^verbatim>\<open>ValueError\<close> or \<^verbatim>\<open>OverflowError\<close> of \<^verbatim>\<open>int(x)\<close> on a
    float that is not finite.
\<close>

datatype error =
    EmptyInput
  | ConfigurationMissing
  | MissingReference
  | StopIteration
  | IndexError
  | KeyError
  | TypeError
  | FloatToInt

text \<open>\<^verbatim>\<open>xs[i]\<close> on a sequence, for an index that is not negative.\<close>

definition item :: "'a list \<Rightarrow> nat \<Rightarrow> error + 'a" where
  "item xs i = (if i < length xs then Inr (xs ! i) else Inl IndexError)"

section \<open>anyarray\_dtypes.py: the packed 10 MHz counter of the trigger board\<close>

text \<open>
  \<^verbatim>\<open>
  def parse_tib_10MHz_counter(counter):
      return counter[0] + (counter[1] << 8) + (counter[2] << 16)
  \<close>
  \<^verbatim>\<open>TIB_DTYPE\<close> declares the field as \<^verbatim>\<open>(np.uint8, 3)\<close>: the argument is a sequence of
  unsigned bytes. Shifting a byte scalar by a Python integer promotes it to a 64-bit
  integer first (NumPy 1.x, which the module was written for), and three bytes never reach
  that width, so the sum is the one of the unbounded integers \<open>uint b\<close>.
\<close>

definition parse_tib_10MHz_counter :: "8 word list \<Rightarrow> error + int" where
  "parse_tib_10MHz_counter counter =
     (case item counter 0 of Inl e \<Rightarrow> Inl e | Inr c0 \<Rightarrow>
      case item counter 1 of Inl e \<Rightarrow> Inl e | Inr c1 \<Rightarrow>
      case item counter 2 of Inl e \<Rightarrow> Inl e | Inr c2 \<Rightarrow>
        Inr (uint c0 + push_bit 8 (uint c1) + push_bit 16 (uint c2)))"

section \<open>multifiles.py: the merger of the substreams\<close>

text \<open>
  A protozfits file is outside the repository; the merger uses of it the table
  \<^verbatim>\<open>Events\<close> with its read cursor (\<^verbatim>\<open>next\<close> returns the row under the cursor and
  advances, or raises \<^verbatim>\<open>StopIteration\<close> behind the last row), the optional table
  \<^verbatim>\<open>CameraConfig\<close> (\<open>None\<close> when the file has no such attribute), and the rewinding
  of the cursor of \<^verbatim>\<open>Events\<close>. Of a row of \<^verbatim>\<open>Events\<close> the merger reads \<^verbatim>\<open>event_id\<close>
  only; \<open>content\<close> stands for the rest of the row.
\<close>

type_synonym path = string

record zfits_event =
  event_id :: int
  content :: nat

record camera_config =
  configuration_id :: int

record zfits_file =
  Events :: "zfits_event list"
  Events_cursor :: nat
  CameraConfig :: "camera_config list option"
  CameraConfig_cursor :: nat

definition next_Events :: "zfits_file \<Rightarrow> error + (zfits_event \<times> zfits_file)" where
  "next_Events f =
     (if Events_cursor f < length (Events f)
      then Inr (Events f ! Events_cursor f, f\<lparr>Events_cursor := Suc (Events_cursor f)\<rparr>)
      else Inl StopIteration)"

definition next_CameraConfig :: "zfits_file \<Rightarrow> error + (camera_config \<times> zfits_file)" where
  "next_CameraConfig f =
     (case CameraConfig f of
        None \<Rightarrow> Inl StopIteration
      | Some rows \<Rightarrow>
          if CameraConfig_cursor f < length rows
          then Inr (rows ! CameraConfig_cursor f,
                    f\<lparr>CameraConfig_cursor := Suc (CameraConfig_cursor f)\<rparr>)
          else Inl StopIteration)"

text \<open>
  \<^verbatim>\<open>File(str(path))\<close>: what is stored under the path, with both cursors on the first row.
  Every path is taken to open; a path that does not would end \<^verbatim>\<open>__init__\<close> with the
  exception of protozfits.
\<close>

definition File :: "(path \<Rightarrow> zfits_file) \<Rightarrow> path \<Rightarrow> zfits_file" where
  "File disk path = (disk path)\<lparr>Events_cursor := 0, CameraConfig_cursor := 0\<rparr>"

text \<open>
  The dictionaries of \<^verbatim>\<open>MultiFiles\<close> keep the order in which their keys were first
  inserted, and \<^verbatim>\<open>min\<close> and \<^verbatim>\<open>next(iter(...))\<close> depend on it: they are association
  lists, written with \<open>AList.update\<close> (a new key goes last, an old key keeps its place)
  and \<open>AList.delete\<close>. \<^verbatim>\<open>_events_table[path]\<close> is the table \<^verbatim>\<open>_file[path].Events\<close> itself
  and is read by \<^verbatim>\<open>__len__\<close> only; it has no field of its own. \<open>camera_config\<close> is
  \<open>None\<close> until \<^verbatim>\<open>__init__\<close> assigns the attribute.
\<close>

record multi_files =
  file_of :: "(path \<times> zfits_file) list"
  events_of :: "(path \<times> zfits_event) list"
  camera_config_of :: "(path \<times> camera_config) list"
  camera_config :: "camera_config option"

definition no_files :: multi_files where
  "no_files = \<lparr>file_of = [], events_of = [], camera_config_of = [], camera_config = None\<rparr>"

text \<open>
  The body of the loop of \<^verbatim>\<open>__init__\<close>:
  \<^verbatim>\<open>
  try:
      self._file[path] = File(str(path))
      self._events_table[path] = self._file[path].Events
      self._events[path] = next(self._file[path].Events)
      if hasattr(self._file[path], 'CameraConfig'):
          self._camera_config[path] = next(self._file[path].CameraConfig)
  except StopIteration:
      pass
  \<close>
  A \<^verbatim>\<open>StopIteration\<close> of the first \<^verbatim>\<open>next\<close> leaves the \<^verbatim>\<open>try\<close> block before the
  configuration is looked at. \<^verbatim>\<open>Provenance().add_input_file\<close>, the statement before the
  \<^verbatim>\<open>try\<close>, records the path with ctapipe and does nothing to the merger.
\<close>

definition open_path :: "(path \<Rightarrow> zfits_file) \<Rightarrow> multi_files \<Rightarrow> path \<Rightarrow> multi_files" where
  "open_path disk m path =
     (let f = File disk path;
          m1 = m\<lparr>file_of := AList.update path f (file_of m)\<rparr>
      in case next_Events f of
           Inl _ \<Rightarrow> m1
         | Inr (e, f1) \<Rightarrow>
             let m2 = m1\<lparr>file_of := AList.update path f1 (file_of m1),
                          events_of := AList.update path e (events_of m1)\<rparr>
             in (case CameraConfig f1 of
                   None \<Rightarrow> m2
                 | Some _ \<Rightarrow>
                     (case next_CameraConfig f1 of
                        Inl _ \<Rightarrow> m2
                      | Inr (c, f2) \<Rightarrow>
                          m2\<lparr>file_of := AList.update path f2 (file_of m2),
                             camera_config_of := AList.update path c (camera_config_of m2)\<rparr>)))"

definition MultiFiles_init :: "(path \<Rightarrow> zfits_file) \<Rightarrow> path list \<Rightarrow> error + multi_files" where
  "MultiFiles_init disk paths =
     (if length paths = 0 then Inl EmptyInput
      else
        let m = foldl (open_path disk) no_files paths
        in if length (camera_config_of m) = 0 then Inl ConfigurationMissing
           else Inr (m\<lparr>camera_config := Some (snd (hd (camera_config_of m)))\<rparr>))"

text \<open>
  \<^verbatim>\<open>min(items, key=...)\<close> on a sequence that is not empty: the first of the items with
  the smallest key.
\<close>

fun min_key :: "('a \<Rightarrow> int) \<Rightarrow> 'a \<Rightarrow> 'a list \<Rightarrow> 'a" where
  "min_key key best [] = best"
| "min_key key best (x # xs) = min_key key (if key x < key best then x else best) xs"

text \<open>
  \<^verbatim>\<open>
  def next_event(self):
      if not self._events:
          raise StopIteration
      min_path = min(self._events.items(), key=lambda item: item[1].event_id)[0]
      next_event = self._events[min_path]
      try:
          self._events[min_path] = next(self._file[min_path].Events)
      except StopIteration:
          del self._events[min_path]
      return next_event
  \<close>
  Both exceptions leave the merger as it was, so an error carries no state.
\<close>

definition next_event :: "multi_files \<Rightarrow> error + (zfits_event \<times> multi_files)" where
  "next_event m =
     (case events_of m of
        [] \<Rightarrow> Inl StopIteration
      | first # rest \<Rightarrow>
          let min_path = fst (min_key (\<lambda>item. event_id (snd item)) first rest)
          in case map_of (events_of m) min_path of
               None \<Rightarrow> Inl KeyError
             | Some next_ev \<Rightarrow>
                 (case map_of (file_of m) min_path of
                    None \<Rightarrow> Inl KeyError
                  | Some f \<Rightarrow>
                      (case next_Events f of
                         Inr (e, f') \<Rightarrow>
                           Inr (next_ev,
                                m\<lparr>file_of := AList.update min_path f' (file_of m),
                                  events_of := AList.update min_path e (events_of m)\<rparr>)
                       | Inl _ \<Rightarrow>
                           Inr (next_ev,
                                m\<lparr>events_of := AList.delete min_path (events_of m)\<rparr>))))"

text \<open>
  \<^verbatim>\<open>
  def rewind(self):
      for file in self._file.values():
          file.Events.protobuf_i_fits.rewind()
  \<close>
\<close>

definition rewind :: "multi_files \<Rightarrow> multi_files" where
  "rewind m = m\<lparr>file_of := map (\<lambda>(p, f). (p, f\<lparr>Events_cursor := 0\<rparr>)) (file_of m)\<rparr>"

text \<open>
  The rows a file has not handed out yet, and what is left to do for the merger: the
  buffered events and the rows behind the cursors.
\<close>

definition pending_rows :: "zfits_file \<Rightarrow> zfits_event list" where
  "pending_rows f = drop (Events_cursor f) (Events f)"

definition pending :: "multi_files \<Rightarrow> nat" where
  "pending m = length (events_of m) + sum_list (map (\<lambda>pf. length (pending_rows (snd pf))) (file_of m))"

subsection \<open>A pass over the merger, with its termination\<close>

lemma length_update_present:
  "map_of al k = Some v \<Longrightarrow> length (AList.update k v' al) = length al"
  by (induction al) (auto split: if_splits)

lemma length_delete_present:
  "map_of al k = Some v \<Longrightarrow> length (AList.delete k al) < length al"
proof (induction al)
  case Nil
  then show ?case by simp
next
  case (Cons a al)
  then show ?case
    using length_delete_le [of k al] by (cases a) (auto simp: less_Suc_eq_le split: if_splits)
qed

lemma sum_update_present:
  "map_of al k = Some v \<Longrightarrow> g v' < g v \<Longrightarrow>
   sum_list (map (\<lambda>pf. g (snd pf)) (AList.update k v' al)) < sum_list (map (\<lambda>pf. (g (snd pf) :: nat)) al)"
  by (induction al) (auto split: if_splits)

lemma next_Events_pending:
  "next_Events f = Inr (e, f') \<Longrightarrow> pending_rows f = e # pending_rows f'"
  by (auto simp: next_Events_def pending_rows_def Cons_nth_drop_Suc split: if_splits)

lemma next_Events_table:
  "next_Events f = Inr (e, f') \<Longrightarrow> Events f' = Events f \<and> CameraConfig f' = CameraConfig f"
  by (auto simp: next_Events_def split: if_splits)

lemma next_event_pending:
  assumes "next_event m = Inr (e, m')"
  shows "pending m' < pending m"
proof -
  from assms obtain first rest where ev: "events_of m = first # rest"
    by (auto simp: next_event_def split: list.splits)
  define p where "p = fst (min_key (\<lambda>item. event_id (snd item)) first rest)"
  from assms ev obtain x where x: "map_of (events_of m) p = Some x"
    by (auto simp: next_event_def p_def Let_def split: option.splits)
  from assms ev x obtain f where f: "map_of (file_of m) p = Some f"
    by (auto simp: next_event_def p_def Let_def split: option.splits)
  show ?thesis
  proof (cases "next_Events f")
    case (Inl a)
    with assms ev x f have "m' = m\<lparr>events_of := AList.delete p (events_of m)\<rparr>"
      by (auto simp: next_event_def p_def Let_def)
    then show ?thesis
      using length_delete_present [OF x] by (simp add: pending_def)
  next
    case (Inr b)
    then obtain e2 f' where b: "next_Events f = Inr (e2, f')" by (cases b) auto
    with assms ev x f have m': "m' = m\<lparr>file_of := AList.update p f' (file_of m),
                                  events_of := AList.update p e2 (events_of m)\<rparr>"
      by (auto simp: next_event_def p_def Let_def)
    have "length (pending_rows f') < length (pending_rows f)"
      using next_Events_pending [OF b] by simp
    from sum_update_present [OF f, of "\<lambda>f. length (pending_rows f)", OF this]
    show ?thesis
      using length_update_present [OF x, of e2] by (simp add: pending_def m')
  qed
qed

text \<open>
  A pass over the merger, as \<^verbatim>\<open>for event in multi_files\<close> makes it: the events that
  \<^verbatim>\<open>next_event\<close> returns until it raises, and the merger the pass leaves behind. Every call
  that returns takes one buffered event or one pending row away, so the pass ends.
\<close>

function drain :: "multi_files \<Rightarrow> zfits_event list \<times> multi_files" where
  "drain m =
     (case next_event m of
        Inl _ \<Rightarrow> ([], m)
      | Inr (e, m') \<Rightarrow> (let (es, m_end) = drain m' in (e # es, m_end)))"
  by pat_completeness auto
termination
  by (relation "measure pending") (auto simp: next_event_pending)

section \<open>event\_time.py: the reconciler of the event times\<close>

subsection \<open>Floating-point numbers\<close>

text \<open>
  The times of \<^verbatim>\<open>event_time.py\<close> are Python floats. Their arithmetic is a parameter of
  the model: a type \<open>'f\<close> of floats with the value \<^verbatim>\<open>np.nan\<close>, the conversion of an
  integer operand, the operations \<^verbatim>\<open>+\<close>, \<^verbatim>\<open>-\<close>, \<^verbatim>\<open>*\<close> and \<^verbatim>\<open>>\<close>, the conversion
  \<^verbatim>\<open>int(x)\<close> (\<open>None\<close> where it raises) and the value of each float literal of the module.
  Nothing is assumed about rounding; what a statement needs of the arithmetic is among
  its hypotheses. \<^verbatim>\<open>int(1e9)\<close> is the integer \<open>1000000000\<close>.
\<close>

datatype float_literal = Lit_1e_9 | Lit_1e_7 | Lit_1e_6 | Lit_1e9 | Lit_1e6

record 'f float_ops =
  f_nan :: 'f
  f_of_int :: "int \<Rightarrow> 'f"
  f_add :: "'f \<Rightarrow> 'f \<Rightarrow> 'f"
  f_sub :: "'f \<Rightarrow> 'f \<Rightarrow> 'f"
  f_mul :: "'f \<Rightarrow> 'f \<Rightarrow> 'f"
  f_gt :: "'f \<Rightarrow> 'f \<Rightarrow> bool"
  f_int :: "'f \<Rightarrow> int option"
  f_lit :: "float_literal \<Rightarrow> 'f"

subsection \<open>Events, configuration and state\<close>

text \<open>
  The calculator keeps every dictionary by \<^verbatim>\<open>tel_id\<close> and \<^verbatim>\<open>__call__(tel_id, event)\<close>
  reads and writes the entries of that telescope only, in \<^verbatim>\<open>self\<close> and in
  \<^verbatim>\<open>event.lst.tel[tel_id]\<close>. The model is that slice: the configuration, the state and the
  event of one telescope. Counters and timestamps are Python integers.

  \<open>lst_event\<close> has the fields of \<^verbatim>\<open>event.index\<close>, \<^verbatim>\<open>lst.svc\<close> and \<^verbatim>\<open>lst.evt\<close> that
  \<^verbatim>\<open>__call__\<close> uses; \<open>index_event_id\<close> is \<^verbatim>\<open>event.index.event_id\<close>.
\<close>

record lst_event =
  obs_id :: int
  index_event_id :: int
  module_ids :: "int list"
  extdevices_presence :: int
  pps_counter :: "int list"
  tenMHz_counter :: "int list"
  tib_pps_counter :: int
  tib_tenMHz_counter :: int
  tib_masked_trigger :: int
  ucts_timestamp :: int
  ucts_trigger_type :: int

text \<open>
  The traits of \<^verbatim>\<open>EventTimeCalculator\<close>. \<^verbatim>\<open>timestamp\<close> is an \<^verbatim>\<open>Enum\<close> of three
  strings, so the last \<^verbatim>\<open>else\<close> of \<^verbatim>\<open>__call__\<close> (\<^verbatim>\<open>'Unknown timestamp requested'\<close>) has
  no value to run on. \<open>timestamp cfg\<close> is the source selected for the telescope, which
  the code reads as \<^verbatim>\<open>self.timestamp.tel[tel_id]\<close> (lines 358 to 364).
\<close>

datatype clock_source = Ucts | Dragon | Tib

record calc_config =
  timestamp :: clock_source
  ucts_t0_dragon :: "int option"
  dragon_counter0 :: "int option"
  ucts_t0_tib :: "int option"
  tib_counter0 :: "int option"
  dragon_module_id :: int
  use_first_event :: bool

text \<open>
  Lines 196, 197 and 250 do not read the selected source: they compare \<^verbatim>\<open>self.timestamp\<close>
  itself with a string, \<^verbatim>\<open>self.timestamp == "dragon"\<close>, \<^verbatim>\<open>self.timestamp == "tib"\<close> and
  \<^verbatim>\<open>self.timestamp == 'tib'\<close>. The value of a \<^verbatim>\<open>TelescopeParameter\<close> trait is a list of
  patterns that carries the lookup \<^verbatim>\<open>.tel\<close>, and a list is not equal to a string, whatever
  the configuration selects.
\<close>

definition timestamp_eq_str :: "calc_config \<Rightarrow> string \<Rightarrow> bool" where
  "timestamp_eq_str cfg s \<longleftrightarrow> False"

text \<open>
  The private attributes. A \<open>priv_\<close> field is \<open>None\<close> when its dictionary has no entry
  for the telescope or holds \<^verbatim>\<open>None\<close> for it. The two deques are lists, the left end is
  the head.
\<close>

record calc_state =
  previous_ucts_timestamps :: "int list"
  previous_ucts_trigger_types :: "int list"
  has_tib_reference :: bool
  has_dragon_reference :: bool
  priv_ucts_t0_dragon :: "int option"
  priv_dragon_counter0 :: "int option"
  priv_ucts_t0_tib :: "int option"
  priv_tib_counter0 :: "int option"

text \<open>
  The records written to \<^verbatim>\<open>self.log\<close>, with the values their messages format, and what
  \<^verbatim>\<open>__call__\<close> returns: the constant \<^verbatim>\<open>NAN_TIME\<close> of ctapipe or \<^verbatim>\<open>Time(x, format='unix_tai')\<close>.
\<close>

datatype 'f log_record =
    Warning_first_event_reference
  | Warning_ucts_unavailable int int
  | Critical_dragon_reference int int
  | Critical_tib_reference int int
  | Warning_ucts_jump int 'f 'f
  | Warning_no_tib_trigger
  | Debug_times 'f 'f 'f

datatype 'f time = NAN_TIME | Time_unix_tai 'f

text \<open>
  A call ends by returning or by raising; either way the calculator and the event keep
  what the call has written to them before.
\<close>

record 'f outcome =
  returned :: "error + 'f time"
  state_after :: calc_state
  event_after :: lst_event
  logged :: "'f log_record list"

subsection \<open>\<^verbatim>\<open>calc_dragon_time\<close>, \<^verbatim>\<open>calc_tib_time\<close> and \<^verbatim>\<open>__init__\<close>\<close>

definition calc_dragon_time :: "'f float_ops \<Rightarrow> lst_event \<Rightarrow> nat \<Rightarrow> 'f \<Rightarrow> error + 'f" where
  "calc_dragon_time F lst module_index reference =
     (case item (pps_counter lst) module_index of Inl e \<Rightarrow> Inl e | Inr pps \<Rightarrow>
      case item (tenMHz_counter lst) module_index of Inl e \<Rightarrow> Inl e | Inr ten \<Rightarrow>
        Inr (f_add F (f_add F reference (f_of_int F pps))
                     (f_mul F (f_of_int F ten) (f_lit F Lit_1e_7))))"

definition calc_tib_time :: "'f float_ops \<Rightarrow> lst_event \<Rightarrow> 'f \<Rightarrow> 'f" where
  "calc_tib_time F lst reference =
     f_add F (f_add F reference (f_of_int F (tib_pps_counter lst)))
             (f_mul F (f_of_int F (tib_tenMHz_counter lst)) (f_lit F Lit_1e_7))"

text \<open>
  The body of the loop of \<^verbatim>\<open>__init__\<close> for one telescope. The test
  \<^verbatim>\<open>if self._has_tib_reference:\<close> is a test of the dictionary, which has an entry by then:
  the two TIB values of the configuration are stored whatever they are.
\<close>

definition EventTimeCalculator_init ::
    "calc_config \<Rightarrow> error + (calc_state \<times> 'f log_record list)" where
  "EventTimeCalculator_init cfg =
     (let has_dragon = (ucts_t0_dragon cfg \<noteq> None \<and> dragon_counter0 cfg \<noteq> None);
          has_tib = (ucts_t0_tib cfg \<noteq> None \<and> tib_counter0 cfg \<noteq> None);
          st = \<lparr>previous_ucts_timestamps = [],
                previous_ucts_trigger_types = [],
                has_tib_reference = has_tib,
                has_dragon_reference = has_dragon,
                priv_ucts_t0_dragon = (if has_dragon then ucts_t0_dragon cfg else None),
                priv_dragon_counter0 = (if has_dragon then dragon_counter0 cfg else None),
                priv_ucts_t0_tib = ucts_t0_tib cfg,
                priv_tib_counter0 = tib_counter0 cfg\<rparr>
      in if (timestamp_eq_str cfg ''dragon'' \<and> \<not> has_dragon)
            \<or> (timestamp_eq_str cfg ''tib'' \<and> \<not> has_tib)
         then (if \<not> use_first_event cfg then Inl MissingReference
               else Inr (st, [Warning_first_event_reference]))
         else Inr (st, []))"

subsection \<open>\<^verbatim>\<open>__call__\<close>\<close>

text \<open>\<^verbatim>\<open>np.where(lst.svc.module_ids == self.dragon_module_id.tel[tel_id])[0][0]\<close>\<close>

definition module_index_of :: "int list \<Rightarrow> int \<Rightarrow> error + nat" where
  "module_index_of ids m =
     (case filter (\<lambda>i. ids ! i = m) [0..<length ids] of
        [] \<Rightarrow> Inl IndexError
      | i # _ \<Rightarrow> Inr i)"

definition tib_available :: "lst_event \<Rightarrow> bool" where
  "tib_available lst \<longleftrightarrow> extdevices_presence lst AND 1 \<noteq> 0"

definition ucts_available :: "lst_event \<Rightarrow> bool" where
  "ucts_available lst \<longleftrightarrow> extdevices_presence lst AND 2 \<noteq> 0"

definition ucts_time_of :: "'f float_ops \<Rightarrow> int \<Rightarrow> 'f" where
  "ucts_time_of F sample_timestamp = f_mul F (f_of_int F sample_timestamp) (f_lit F Lit_1e_9)"

text \<open>
  Lines 234 to 270, \<^verbatim>\<open># first event and values not passed\<close>: the result is
  \<open>(dragon_time, tib_time)\<close> or the exception, with the state and the log as the branch
  leaves them. The references are written before the \<^verbatim>\<open>raise\<close>.
\<close>

definition first_event_reference ::
    "'f float_ops \<Rightarrow> calc_config \<Rightarrow> calc_state \<Rightarrow> lst_event \<Rightarrow> nat
      \<Rightarrow> (error + 'f \<times> 'f) \<times> calc_state \<times> 'f log_record list" where
  "first_event_reference F cfg st lst module_index =
     (case item (pps_counter lst) module_index of Inl e \<Rightarrow> (Inl e, st, []) | Inr pps \<Rightarrow>
      case item (tenMHz_counter lst) module_index of Inl e \<Rightarrow> (Inl e, st, []) | Inr ten \<Rightarrow>
        let initial_dragon_counter = 1000000000 * pps + 100 * ten;
            st1 = st\<lparr>priv_ucts_t0_dragon := Some (ucts_timestamp lst),
                     priv_dragon_counter0 := Some initial_dragon_counter,
                     has_dragon_reference := True\<rparr>;
            log1 = [Critical_dragon_reference (ucts_timestamp lst) initial_dragon_counter];
            dragon_time = ucts_time_of F (ucts_timestamp lst)
        in if \<not> tib_available lst \<and> timestamp_eq_str cfg ''tib''
           then (Inl MissingReference, st1, log1)
           else if tib_available lst then
             let initial_tib_counter =
                   1000000000 * tib_pps_counter lst + 100 * tib_tenMHz_counter lst;
                 st2 = st1\<lparr>priv_ucts_t0_tib := Some (ucts_timestamp lst),
                           priv_tib_counter0 := Some initial_tib_counter,
                           has_tib_reference := True\<rparr>
             in (Inr (dragon_time, ucts_time_of F (ucts_timestamp lst)), st2,
                 log1 @ [Critical_tib_reference (ucts_timestamp lst) initial_tib_counter])
           else (Inr (dragon_time, f_nan F), st1, log1))"

text \<open>
  Lines 271 to 283, the \<^verbatim>\<open>else\<close> branch: the times of the counters from the references
  there are. A reference whose dictionary has no entry raises \<^verbatim>\<open>KeyError\<close>, one whose
  entry is \<^verbatim>\<open>None\<close> raises \<^verbatim>\<open>TypeError\<close> in the subtraction.
\<close>

definition counter_times ::
    "'f float_ops \<Rightarrow> calc_state \<Rightarrow> lst_event \<Rightarrow> nat \<Rightarrow> error + 'f \<times> 'f" where
  "counter_times F st lst module_index =
     (case
        (if has_dragon_reference st then
           (case (priv_ucts_t0_dragon st, priv_dragon_counter0 st) of
              (Some t0, Some c0) \<Rightarrow>
                calc_dragon_time F lst module_index
                  (f_mul F (f_lit F Lit_1e_9) (f_of_int F (t0 - c0)))
            | _ \<Rightarrow> Inl KeyError)
         else Inr (f_nan F))
      of
        Inl e \<Rightarrow> Inl e
      | Inr dragon_time \<Rightarrow>
          if has_tib_reference st \<and> tib_available lst then
            (case (priv_ucts_t0_tib st, priv_tib_counter0 st) of
               (Some t0, Some c0) \<Rightarrow>
                 Inr (dragon_time,
                      calc_tib_time F lst (f_mul F (f_lit F Lit_1e_9) (f_of_int F (t0 - c0))))
             | _ \<Rightarrow> Inl TypeError)
          else Inr (dragon_time, f_nan F))"

definition clock_times ::
    "'f float_ops \<Rightarrow> calc_config \<Rightarrow> calc_state \<Rightarrow> lst_event \<Rightarrow> nat
      \<Rightarrow> (error + 'f \<times> 'f) \<times> calc_state \<times> 'f log_record list" where
  "clock_times F cfg st lst module_index =
     (if \<not> has_dragon_reference st \<and> \<not> has_tib_reference st
      then first_event_reference F cfg st lst module_index
      else (counter_times F st lst module_index, st, []))"

text \<open>
  Lines 306 to 319: with a queue that is not empty the sample of the event goes to its
  tail and the sample at its head becomes the sample of the event, in the variables
  (the first two components) and in the fields of the event. Both deques have at least
  the element just appended when \<^verbatim>\<open>popleft\<close> is called.
\<close>

definition realign :: "calc_state \<Rightarrow> lst_event \<Rightarrow> int \<times> int \<times> calc_state \<times> lst_event" where
  "realign st lst =
     (if length (previous_ucts_timestamps st) > 0 then
        let timestamps = previous_ucts_timestamps st @ [ucts_timestamp lst];
            trigger_types = previous_ucts_trigger_types st @ [ucts_trigger_type lst]
        in (hd timestamps, hd trigger_types,
            st\<lparr>previous_ucts_timestamps := tl timestamps,
               previous_ucts_trigger_types := tl trigger_types\<rparr>,
            lst\<lparr>ucts_trigger_type := hd trigger_types, ucts_timestamp := hd timestamps\<rparr>)
      else (ucts_timestamp lst, ucts_trigger_type lst, st, lst))"

text \<open>
  Lines 335 to 355: the test for a jump and what follows from it, for the sample
  \<open>(sample_timestamp, sample_trigger_type)\<close> that the variables \<^verbatim>\<open>ucts_timestamp\<close> and
  \<^verbatim>\<open>ucts_trigger_type\<close> hold by then. The first component is \<^verbatim>\<open>ucts_time\<close> as the
  block leaves it.
\<close>

definition check_jump ::
    "'f float_ops \<Rightarrow> 'f \<Rightarrow> int \<Rightarrow> int \<Rightarrow> calc_state \<Rightarrow> lst_event
      \<Rightarrow> (error + 'f) \<times> calc_state \<times> lst_event \<times> 'f log_record list" where
  "check_jump F dragon_time sample_timestamp sample_trigger_type st lst =
     (let ucts_time = ucts_time_of F sample_timestamp in
      if f_gt F (f_sub F ucts_time dragon_time) (f_lit F Lit_1e_6) then
        let log1 = [Warning_ucts_jump (index_event_id lst) dragon_time
                      (f_mul F (f_sub F ucts_time dragon_time) (f_lit F Lit_1e6))];
            st1 = st\<lparr>previous_ucts_timestamps := sample_timestamp # previous_ucts_timestamps st,
                     previous_ucts_trigger_types :=
                       sample_trigger_type # previous_ucts_trigger_types st\<rparr>
        in case f_int F (f_mul F dragon_time (f_lit F Lit_1e9)) of
             None \<Rightarrow> (Inl FloatToInt, st1, lst, log1)
           | Some ns \<Rightarrow>
               let lst1 = lst\<lparr>ucts_timestamp := ns\<rparr> in
               if tib_available lst
               then (Inr dragon_time, st1,
                     lst1\<lparr>ucts_trigger_type := tib_masked_trigger lst\<rparr>, log1)
               else (Inr dragon_time, st1,
                     lst1\<lparr>ucts_trigger_type := 0\<rparr>, log1 @ [Warning_no_tib_trigger])
      else (Inr ucts_time, st, lst, []))"

definition reconcile ::
    "'f float_ops \<Rightarrow> calc_config \<Rightarrow> calc_state \<Rightarrow> lst_event \<Rightarrow> 'f outcome" where
  "reconcile F cfg st lst =
     (case module_index_of (module_ids lst) (dragon_module_id cfg) of
        Inl e \<Rightarrow> \<lparr>returned = Inl e, state_after = st, event_after = lst, logged = []\<rparr>
      | Inr module_index \<Rightarrow>
          if \<not> ucts_available lst then
            \<lparr>returned = Inr NAN_TIME, state_after = st, event_after = lst,
             logged = [Warning_ucts_unavailable (obs_id lst) (index_event_id lst)]\<rparr>
          else
            (case clock_times F cfg st lst module_index of
               (Inl e, st1, log1) \<Rightarrow>
                 \<lparr>returned = Inl e, state_after = st1, event_after = lst, logged = log1\<rparr>
             | (Inr (dragon_time, tib_time), st1, log1) \<Rightarrow>
                 (case realign st1 lst of
                    (sample_timestamp, sample_trigger_type, st2, lst2) \<Rightarrow>
                      (case check_jump F dragon_time sample_timestamp sample_trigger_type st2 lst2 of
                         (Inl e, st3, lst3, log3) \<Rightarrow>
                           \<lparr>returned = Inl e, state_after = st3, event_after = lst3,
                            logged = log1 @ log3\<rparr>
                       | (Inr ucts_time, st3, lst3, log3) \<Rightarrow>
                           \<lparr>returned =
                              Inr (Time_unix_tai
                                     (case timestamp cfg of
                                        Ucts \<Rightarrow> ucts_time
                                      | Dragon \<Rightarrow> dragon_time
                                      | Tib \<Rightarrow> tib_time)),
                            state_after = st3, event_after = lst3,
                            logged = log1 @ log3 @ [Debug_times tib_time dragon_time ucts_time]\<rparr>))))"

text \<open>
  The caller's loop over the events of one telescope: every event is reconciled in the
  state the event before it has left, and an exception ends the run.
\<close>

fun reconcile_all ::
    "'f float_ops \<Rightarrow> calc_config \<Rightarrow> calc_state \<Rightarrow> lst_event list \<Rightarrow> 'f outcome list" where
  "reconcile_all F cfg st [] = []"
| "reconcile_all F cfg st (lst # rest) =
     (let r = reconcile F cfg st lst
      in r # (case returned r of
                Inl _ \<Rightarrow> []
              | Inr _ \<Rightarrow> reconcile_all F cfg (state_after r) rest))"

section \<open>Notions of the statements\<close>

subsection \<open>The merger\<close>

text \<open>
  The state of a merger over sorted substreams: no path is buffered twice, and every
  buffered event belongs to an open file whose pending rows continue it in sorted order.
  \<open>buffered_from lo\<close>: no buffered event has an id below \<open>lo\<close>.
\<close>

definition merger_inv :: "multi_files \<Rightarrow> bool" where
  "merger_inv m \<longleftrightarrow>
     distinct (map fst (events_of m)) \<and>
     (\<forall>p e. map_of (events_of m) p = Some e \<longrightarrow>
        (\<exists>f. map_of (file_of m) p = Some f \<and> sorted (map event_id (e # pending_rows f))))"

definition buffered_from :: "int \<Rightarrow> multi_files \<Rightarrow> bool" where
  "buffered_from lo m \<longleftrightarrow> (\<forall>p x. map_of (events_of m) p = Some x \<longrightarrow> lo \<le> event_id x)"

text \<open>
  What \<^verbatim>\<open>__init__\<close> gets from one substream: its first event, and the first row of its
  configuration table, which is read only after a first event was.
\<close>

definition first_event :: "zfits_file \<Rightarrow> zfits_event option" where
  "first_event f = (case Events f of [] \<Rightarrow> None | e # _ \<Rightarrow> Some e)"

definition first_config :: "zfits_file \<Rightarrow> camera_config option" where
  "first_config f =
     (case Events f of
        [] \<Rightarrow> None
      | _ # _ \<Rightarrow> (case CameraConfig f of None \<Rightarrow> None | Some [] \<Rightarrow> None | Some (c # _) \<Rightarrow> Some c))"

text \<open>
  Every configuration recorded so far is the one the substream under its path yields.
\<close>

definition configs_agree :: "(path \<Rightarrow> zfits_file) \<Rightarrow> (path \<times> camera_config) list \<Rightarrow> bool" where
  "configs_agree disk al \<longleftrightarrow> (\<forall>p c. map_of al p = Some c \<longrightarrow> first_config (disk p) = Some c)"

text \<open>
  \<open>iterated m0 m\<close>: the merger \<open>m\<close> is what some number of calls of
  \<^verbatim>\<open>next_event\<close> that returned have made of \<open>m0\<close>. \<open>registration_order\<close>: the
  paths in the order in which \<^verbatim>\<open>__init__\<close> first met them.
\<close>

inductive iterated :: "multi_files \<Rightarrow> multi_files \<Rightarrow> bool" for m0 where
  start: "iterated m0 m0"
| step: "iterated m0 m \<Longrightarrow> next_event m = Inr (e, m') \<Longrightarrow> iterated m0 m'"

fun registration_order :: "path list \<Rightarrow> path list" where
  "registration_order [] = []"
| "registration_order (p # ps) = p # removeAll p (registration_order ps)"

subsection \<open>The reconciler\<close>



text \<open>
  The state of a telescope whose TIB reference is established and whose Dragon
  reference is not, before any jump.
\<close>

definition tib_only :: "calc_state \<Rightarrow> bool" where
  "tib_only st \<longleftrightarrow>
     has_tib_reference st \<and> \<not> has_dragon_reference st
   \<and> previous_ucts_timestamps st = [] \<and> previous_ucts_trigger_types st = []"

section \<open>Concrete substreams, events and arithmetic\<close>

text \<open>
  Three substreams as the design's scenario has them, the first without a configuration
  table, and empty substreams (which do have one) under every other path.
\<close>

definition ev :: "int \<Rightarrow> zfits_event" where
  "ev i = \<lparr>event_id = i, content = 0\<rparr>"

definition three_substreams :: "path \<Rightarrow> zfits_file" where
  "three_substreams p =
     (if p = ''a'' then \<lparr>Events = [ev 1, ev 4, ev 7], Events_cursor = 0,
                          CameraConfig = None, CameraConfig_cursor = 0\<rparr>
      else if p = ''b'' then \<lparr>Events = [ev 2, ev 5, ev 8], Events_cursor = 0,
                          CameraConfig = Some [\<lparr>configuration_id = 7\<rparr>], CameraConfig_cursor = 0\<rparr>
      else if p = ''c'' then \<lparr>Events = [ev 3, ev 6, ev 9], Events_cursor = 0,
                          CameraConfig = Some [\<lparr>configuration_id = 9\<rparr>], CameraConfig_cursor = 0\<rparr>
      else \<lparr>Events = [], Events_cursor = 0,
             CameraConfig = Some [\<lparr>configuration_id = 1\<rparr>], CameraConfig_cursor = 0\<rparr>)"

text \<open>
  An arithmetic to run the model on: the real numbers with one more value for
  \<^verbatim>\<open>np.nan\<close>, every operation exact, \<^verbatim>\<open>int(x)\<close> truncating towards zero. An event of a
  telescope with two modules, the configured one second, with both devices present, and a
  configuration that supplies both references.
\<close>

definition lift2 :: "(real \<Rightarrow> real \<Rightarrow> real) \<Rightarrow> real option \<Rightarrow> real option \<Rightarrow> real option" where
  "lift2 f x y = (case x of None \<Rightarrow> None | Some a \<Rightarrow> (case y of None \<Rightarrow> None | Some b \<Rightarrow> Some (f a b)))"

definition exact_arithmetic :: "real option float_ops" where
  "exact_arithmetic =
     \<lparr>f_nan = None,
      f_of_int = (\<lambda>i. Some (of_int i)),
      f_add = lift2 (+),
      f_sub = lift2 (-),
      f_mul = lift2 (*),
      f_gt = (\<lambda>x y. case x of None \<Rightarrow> False | Some a \<Rightarrow> (case y of None \<Rightarrow> False | Some b \<Rightarrow> b < a)),
      f_int = (\<lambda>x. case x of None \<Rightarrow> None | Some a \<Rightarrow> Some (if 0 \<le> a then \<lfloor>a\<rfloor> else \<lceil>a\<rceil>)),
      f_lit = (\<lambda>l. Some (case l of
                 Lit_1e_9 \<Rightarrow> 1 / 1000000000
               | Lit_1e_7 \<Rightarrow> 1 / 10000000
               | Lit_1e_6 \<Rightarrow> 1 / 1000000
               | Lit_1e9 \<Rightarrow> 1000000000
               | Lit_1e6 \<Rightarrow> 1000000))\<rparr>"

definition demo_event :: lst_event where
  "demo_event =
     \<lparr>obs_id = 1, index_event_id = 7, module_ids = [5, 132], extdevices_presence = 3,
      pps_counter = [0, 2], tenMHz_counter = [0, 5000000],
      tib_pps_counter = 2, tib_tenMHz_counter = 5000000, tib_masked_trigger = 4,
      ucts_timestamp = 1600000002500000000, ucts_trigger_type = 1\<rparr>"

definition demo_config :: calc_config where
  "demo_config =
     \<lparr>timestamp = Ucts,
      ucts_t0_dragon = Some 1600000000000000000, dragon_counter0 = Some 0,
      ucts_t0_tib = Some 1600000000000000000, tib_counter0 = Some 0,
      dragon_module_id = 132, use_first_event = True\<rparr>"

definition no_reference :: calc_state where
  "no_reference =
     \<lparr>previous_ucts_timestamps = [], previous_ucts_trigger_types = [],
      has_tib_reference = False, has_dragon_reference = False,
      priv_ucts_t0_dragon = None, priv_dragon_counter0 = None,
      priv_ucts_t0_tib = None, priv_tib_counter0 = None\<rparr>"


definition late_event :: lst_event where
  "late_event = demo_event\<lparr>ucts_timestamp := 1600000002500002000\<rparr>"




definition tib_calibration :: calc_config where
  "tib_calibration = demo_config\<lparr>ucts_t0_dragon := None\<rparr>"

definition tib_reference_only :: calc_state where
  "tib_reference_only =
     \<lparr>previous_ucts_timestamps = [], previous_ucts_trigger_types = [],
      has_tib_reference = True, has_dragon_reference = False,
      priv_ucts_t0_dragon = None, priv_dragon_counter0 = None,
      priv_ucts_t0_tib = Some 1600000000000000000, priv_tib_counter0 = Some 0\<rparr>"



section \<open>Properties\<close>

lemma uint_byte_bounds: "0 \<le> uint (b :: 8 word) \<and> uint b < 256"
  using uint_lt2p [of b] by simp

text \<open>
  Claim C9. For a three-byte counter \<open>[b0, b1, b2]\<close> the decoder returns the
  little-endian unsigned value \<open>b0 + 2\<^sup>8 b1 + 2\<^sup>1\<^sup>6 b2\<close>; it never raises there, its result
  depends on the three bytes only, and the value lies in \<open>[0, 2\<^sup>2\<^sup>4)\<close>.
\<close>

theorem parse_tib_10MHz_counter_little_endian:
  "\<exists>v. parse_tib_10MHz_counter [b0, b1, b2] = Inr v
     \<and> v = uint b0 + 2 ^ 8 * uint b1 + 2 ^ 16 * uint b2
     \<and> 0 \<le> v \<and> v < 2 ^ 24"
proof -
  have r: "parse_tib_10MHz_counter [b0, b1, b2]
             = Inr (uint b0 + 2 ^ 8 * uint b1 + 2 ^ 16 * uint b2)"
    by (simp add: parse_tib_10MHz_counter_def item_def push_bit_eq_mult mult.commute)
  have "0 \<le> uint b0 + 2 ^ 8 * uint b1 + 2 ^ 16 * uint b2"
    using uint_byte_bounds [of b0] uint_byte_bounds [of b1] uint_byte_bounds [of b2]
    by simp
  moreover have "uint b0 + 2 ^ 8 * uint b1 + 2 ^ 16 * uint b2 < 2 ^ 24"
    using uint_byte_bounds [of b0] uint_byte_bounds [of b1] uint_byte_bounds [of b2]
    by simp
  ultimately show ?thesis using r by simp
qed

theorem parse_tib_10MHz_counter_little_endian_witness:
  "parse_tib_10MHz_counter [0x40, 0x42, 0x0F] = Inr 1000000"
  using parse_tib_10MHz_counter_little_endian [of "0x40" "0x42" "0x0F"] by auto

subsection \<open>The merger: the smallest buffered event\<close>

lemma min_key_split:
  "\<exists>ys zs. best # xs = ys @ min_key key best xs # zs
      \<and> (\<forall>y\<in>set ys. key (min_key key best xs) < key y)
      \<and> (\<forall>z\<in>set zs. key (min_key key best xs) \<le> key z)"
proof (induction xs arbitrary: best)
  case Nil
  show ?case by (intro exI [of _ "[]"]) simp
next
  case (Cons x xs)
  define b where "b = (if key x < key best then x else best)"
  define m where "m = min_key key b xs"
  have step: "min_key key best (x # xs) = m" by (simp add: m_def b_def)
  from Cons.IH [of b] obtain ys zs where
    s: "b # xs = ys @ m # zs" and
    lt: "\<forall>y\<in>set ys. key m < key y" and
    le: "\<forall>z\<in>set zs. key m \<le> key z"
    unfolding m_def by blast
  have mb: "key m \<le> key b"
  proof (cases ys)
    case Nil
    with s have "m = b" by simp
    then show ?thesis by simp
  next
    case (Cons y ys')
    with s lt show ?thesis by auto
  qed
  show ?case
  proof (cases "key x < key best")
    case True
    then have bx: "b = x" by (simp add: b_def)
    from s bx have "best # x # xs = (best # ys) @ m # zs" by simp
    moreover from True mb bx have "key m < key best" by simp
    ultimately show ?thesis using lt le unfolding step
      by (intro exI [of _ "best # ys"] exI [of _ zs]) simp
  next
    case False
    then have bb: "b = best" by (simp add: b_def)
    show ?thesis
    proof (cases ys)
      case Nil
      with s bb have "m = best" "zs = xs" by simp_all
      then show ?thesis using False le unfolding step
        by (intro exI [of _ "[]"] exI [of _ "x # xs"]) auto
    next
      case (Cons y ys')
      with s bb have y: "y = best" and r: "xs = ys' @ m # zs" by simp_all
      from lt Cons y have "key m < key best" by simp
      with False have "key m < key x" by simp
      then show ?thesis using lt le Cons y r unfolding step
        by (intro exI [of _ "best # x # ys'"] exI [of _ zs]) auto
    qed
  qed
qed

lemma min_key_in: "min_key key best xs \<in> set (best # xs)"
  using min_key_split [of best xs key] by (metis in_set_conv_decomp)

lemma min_key_least: "x \<in> set (best # xs) \<Longrightarrow> key (min_key key best xs) \<le> key x"
proof -
  assume x: "x \<in> set (best # xs)"
  obtain ys zs where
    s: "best # xs = ys @ min_key key best xs # zs" and
    lt: "\<forall>y\<in>set ys. key (min_key key best xs) < key y" and
    le: "\<forall>z\<in>set zs. key (min_key key best xs) \<le> key z"
    using min_key_split [of best xs key] by blast
  from x s have "x \<in> set ys \<or> x = min_key key best xs \<or> x \<in> set zs"
    by (metis Un_iff set_ConsD set_append)
  then show ?thesis using lt le by auto
qed

lemma next_event_cases:
  assumes "next_event m = Inr (e, m')"
  obtains first rest p f where
    "events_of m = first # rest"
    "p = fst (min_key (\<lambda>item. event_id (snd item)) first rest)"
    "map_of (events_of m) p = Some e"
    "map_of (file_of m) p = Some f"
    "(\<exists>e2 f'. next_Events f = Inr (e2, f') \<and>
        m' = m\<lparr>file_of := AList.update p f' (file_of m),
                events_of := AList.update p e2 (events_of m)\<rparr>)
     \<or> (next_Events f = Inl StopIteration \<and> m' = m\<lparr>events_of := AList.delete p (events_of m)\<rparr>)"
proof -
  from assms obtain first rest where ev: "events_of m = first # rest"
    by (auto simp: next_event_def split: list.splits)
  define p where "p = fst (min_key (\<lambda>item. event_id (snd item)) first rest)"
  from assms ev have x: "map_of (events_of m) p = Some e"
    by (auto simp: next_event_def p_def Let_def split: option.splits sum.splits)
  from assms ev x obtain f where f: "map_of (file_of m) p = Some f"
    by (auto simp: next_event_def p_def Let_def split: option.splits)
  have "(\<exists>e2 f'. next_Events f = Inr (e2, f') \<and>
        m' = m\<lparr>file_of := AList.update p f' (file_of m),
                events_of := AList.update p e2 (events_of m)\<rparr>)
     \<or> (next_Events f = Inl StopIteration \<and> m' = m\<lparr>events_of := AList.delete p (events_of m)\<rparr>)"
    using assms ev x f
    by (auto simp: next_event_def p_def Let_def next_Events_def split: sum.splits if_splits)
  with ev x f p_def show ?thesis using that by blast
qed

lemma next_event_least:
  assumes n: "next_event m = Inr (e, m')" and d: "distinct (map fst (events_of m))"
    and x: "map_of (events_of m) q = Some x"
  shows "event_id e \<le> event_id x"
proof -
  from n obtain first rest p f where
    ev: "events_of m = first # rest" and
    p: "p = fst (min_key (\<lambda>item. event_id (snd item)) first rest)" and
    e: "map_of (events_of m) p = Some e"
    by (rule next_event_cases)
  let ?mi = "min_key (\<lambda>item. event_id (snd item)) first rest"
  have "?mi \<in> set (events_of m)" using min_key_in [of _ first rest] ev by simp
  then have "map_of (events_of m) (fst ?mi) = Some (snd ?mi)"
    using d by simp
  with e p have "snd ?mi = e" by simp
  moreover have "(q, x) \<in> set (first # rest)" using map_of_SomeD [OF x] ev by simp
  from min_key_least [OF this, of "\<lambda>item. event_id (snd item)"]
  have "event_id (snd ?mi) \<le> event_id x" by simp
  ultimately show ?thesis by simp
qed

lemma next_event_inv:
  assumes n: "next_event m = Inr (e, m')" and i: "merger_inv m"
  shows "merger_inv m' \<and> buffered_from (event_id e) m'"
proof -
  from n obtain first rest p f where
    e: "map_of (events_of m) p = Some e" and
    f: "map_of (file_of m) p = Some f" and
    c: "(\<exists>e2 f'. next_Events f = Inr (e2, f') \<and>
        m' = m\<lparr>file_of := AList.update p f' (file_of m),
                events_of := AList.update p e2 (events_of m)\<rparr>)
     \<or> (next_Events f = Inl StopIteration \<and> m' = m\<lparr>events_of := AList.delete p (events_of m)\<rparr>)"
    by (rule next_event_cases)
  from i have d: "distinct (map fst (events_of m))" by (simp add: merger_inv_def)
  have se: "sorted (map event_id (e # pending_rows f))"
    using i e f unfolding merger_inv_def by (metis option.sel)
  have least: "\<And>q x. map_of (events_of m) q = Some x \<Longrightarrow> event_id e \<le> event_id x"
    using next_event_least [OF n d] .
  from c show ?thesis
  proof
    assume "\<exists>e2 f'. next_Events f = Inr (e2, f') \<and>
        m' = m\<lparr>file_of := AList.update p f' (file_of m),
                events_of := AList.update p e2 (events_of m)\<rparr>"
    then obtain e2 f' where ne: "next_Events f = Inr (e2, f')" and
      m': "m' = m\<lparr>file_of := AList.update p f' (file_of m),
                events_of := AList.update p e2 (events_of m)\<rparr>" by blast
    from next_Events_pending [OF ne] have pr: "pending_rows f = e2 # pending_rows f'" .
    with se have s2: "sorted (map event_id (e2 # pending_rows f'))" and le: "event_id e \<le> event_id e2"
      by simp_all
    have "merger_inv m'"
      unfolding merger_inv_def m'
      using i s2 by (auto simp: merger_inv_def distinct_update update_conv')
    moreover have "buffered_from (event_id e) m'"
      unfolding buffered_from_def m'
      using least le by (auto simp: update_conv')
    ultimately show ?thesis ..
  next
    assume "next_Events f = Inl StopIteration \<and> m' = m\<lparr>events_of := AList.delete p (events_of m)\<rparr>"
    then have m': "m' = m\<lparr>events_of := AList.delete p (events_of m)\<rparr>" ..
    have "merger_inv m'"
      unfolding merger_inv_def m'
      using i by (auto simp: merger_inv_def distinct_delete delete_conv' split: if_splits)
    moreover have "buffered_from (event_id e) m'"
      unfolding buffered_from_def m'
      using least by (auto simp: delete_conv' split: if_splits)
    ultimately show ?thesis ..
  qed
qed

lemma next_event_total:
  assumes i: "merger_inv m" and ne: "events_of m \<noteq> []"
  shows "\<exists>e m'. next_event m = Inr (e, m')"
proof -
  from ne obtain first rest where ev: "events_of m = first # rest" by (cases "events_of m") auto
  let ?mi = "min_key (\<lambda>item. event_id (snd item)) first rest"
  from i have d: "distinct (map fst (events_of m))" by (simp add: merger_inv_def)
  have "?mi \<in> set (events_of m)" using min_key_in [of _ first rest] ev by simp
  then have x: "map_of (events_of m) (fst ?mi) = Some (snd ?mi)" using d by simp
  with i obtain f where f: "map_of (file_of m) (fst ?mi) = Some f"
    unfolding merger_inv_def by blast
  show ?thesis using ev x f
    by (auto simp: next_event_def Let_def split: sum.splits)
qed

lemma drain_sorted_from:
  "merger_inv m \<Longrightarrow> buffered_from lo m \<Longrightarrow>
   sorted (map event_id (fst (drain m))) \<and> (\<forall>x\<in>set (fst (drain m)). lo \<le> event_id x)"
proof (induction m arbitrary: lo rule: drain.induct)
  case (1 m)
  show ?case
  proof (cases "next_event m")
    case (Inl a)
    then show ?thesis by (subst drain.simps, subst drain.simps) simp
  next
    case (Inr b)
    then obtain e m' where n: "next_event m = Inr (e, m')" by (cases b) auto
    from next_event_cases [OF n] have "map_of (events_of m) (fst (min_key (\<lambda>item. event_id (snd item)) (hd (events_of m)) (tl (events_of m)))) = Some e"
      by (metis list.sel(1,3))
    with "1.prems"(2) have lo: "lo \<le> event_id e" by (auto simp: buffered_from_def)
    from next_event_inv [OF n "1.prems"(1)] have i': "merger_inv m'" and b': "buffered_from (event_id e) m'"
      by simp_all
    from "1.IH" [OF n refl i' b']
    have s: "sorted (map event_id (fst (drain m')))" and g: "\<forall>x\<in>set (fst (drain m')). event_id e \<le> event_id x"
      by simp_all
    have d: "fst (drain m) = e # fst (drain m')"
      by (subst drain.simps) (simp add: n split_beta)
    show ?thesis using s g lo unfolding d by auto
  qed
qed

lemma drain_end:
  "merger_inv m \<Longrightarrow> events_of (snd (drain m)) = []"
proof (induction m rule: drain.induct)
  case (1 m)
  show ?case
  proof (cases "next_event m")
    case (Inl a)
    with "1.prems" next_event_total [of m] have "events_of m = []" by fastforce
    with Inl show ?thesis by (subst drain.simps) simp
  next
    case (Inr b)
    then obtain e m' where n: "next_event m = Inr (e, m')" by (cases b) auto
    from next_event_inv [OF n "1.prems"] have i': "merger_inv m'" by simp
    have d: "snd (drain m) = snd (drain m')"
      by (subst drain.simps) (simp add: n split_beta)
    from "1.IH" [OF n refl i'] show ?thesis unfolding d .
  qed
qed

subsection \<open>The merger: construction\<close>

lemma open_path_events:
  "events_of (open_path disk m p) =
     (case first_event (disk p) of None \<Rightarrow> events_of m | Some e \<Rightarrow> AList.update p e (events_of m))"
  by (cases "Events (disk p)"; cases "CameraConfig (disk p)")
     (auto simp: open_path_def first_event_def File_def next_Events_def next_CameraConfig_def Let_def
           split: sum.splits option.splits list.splits if_splits)

lemma open_path_configs:
  "camera_config_of (open_path disk m p) =
     (case first_config (disk p) of None \<Rightarrow> camera_config_of m
      | Some c \<Rightarrow> AList.update p c (camera_config_of m))"
  by (cases "Events (disk p)"; cases "CameraConfig (disk p)")
     (auto simp: open_path_def first_config_def File_def next_Events_def next_CameraConfig_def Let_def
           split: sum.splits option.splits list.splits if_splits)

lemma foldl_open_path_configs_none:
  "\<forall>p\<in>set paths. first_config (disk p) = None \<Longrightarrow>
   camera_config_of (foldl (open_path disk) m paths) = camera_config_of m"
  by (induction paths arbitrary: m) (simp_all add: open_path_configs)

lemma update_agree_hd:
  assumes "configs_agree disk al" "al \<noteq> []" "first_config (disk p) = Some c"
  shows "configs_agree disk (AList.update p c al) \<and> AList.update p c al \<noteq> []
         \<and> hd (AList.update p c al) = hd al"
proof -
  from assms(2) obtain q d rest where al: "al = (q, d) # rest" by (cases al) auto
  have "configs_agree disk (AList.update p c al)"
    using assms(1,3) by (auto simp: configs_agree_def update_conv')
  moreover have "hd (AList.update p c al) = hd al"
  proof (cases "p = q")
    case True
    with assms(1) al have "first_config (disk p) = Some d" by (simp add: configs_agree_def)
    with assms(3) True al show ?thesis by simp
  next
    case False
    with al show ?thesis by simp
  qed
  ultimately show ?thesis by simp
qed

lemma foldl_open_path_hd:
  "configs_agree disk (camera_config_of m) \<Longrightarrow> camera_config_of m \<noteq> [] \<Longrightarrow>
   camera_config_of (foldl (open_path disk) m paths) \<noteq> [] \<and>
   hd (camera_config_of (foldl (open_path disk) m paths)) = hd (camera_config_of m)"
proof (induction paths arbitrary: m)
  case Nil
  then show ?case by simp
next
  case (Cons p paths)
  show ?case
  proof (cases "first_config (disk p)")
    case None
    then have "camera_config_of (open_path disk m p) = camera_config_of m"
      by (simp add: open_path_configs)
    with Cons.IH [of "open_path disk m p"] Cons.prems show ?thesis by simp
  next
    case (Some c)
    then have e: "camera_config_of (open_path disk m p) = AList.update p c (camera_config_of m)"
      by (simp add: open_path_configs)
    from update_agree_hd [OF Cons.prems Some]
    show ?thesis using Cons.IH [of "open_path disk m p"] unfolding e by simp
  qed
qed

lemma find_split:
  "find P xs = Some x \<Longrightarrow> \<exists>pre post. xs = pre @ x # post \<and> (\<forall>q\<in>set pre. \<not> P q) \<and> P x"
proof (induction xs)
  case Nil
  then show ?case by simp
next
  case (Cons a xs)
  show ?case
  proof (cases "P a")
    case True
    with Cons.prems have "a = x" by simp
    with True show ?thesis by (intro exI [of _ "[]"] exI [of _ xs]) simp
  next
    case False
    with Cons obtain pre post where "xs = pre @ x # post" "\<forall>q\<in>set pre. \<not> P q" "P x"
      by auto
    with False show ?thesis by (intro exI [of _ "a # pre"] exI [of _ post]) simp
  qed
qed

lemma foldl_open_path_first:
  assumes "find (\<lambda>p. first_config (disk p) \<noteq> None) paths = Some p"
  shows "camera_config_of (foldl (open_path disk) no_files paths) \<noteq> [] \<and>
         Some (snd (hd (camera_config_of (foldl (open_path disk) no_files paths)))) = first_config (disk p)"
proof -
  from assms obtain pre post where
    paths: "paths = pre @ p # post" and
    pre: "\<forall>q\<in>set pre. first_config (disk q) = None" and
    p: "first_config (disk p) \<noteq> None"
    using find_split [OF assms] by auto
  from p obtain c where c: "first_config (disk p) = Some c" by auto
  define m1 where "m1 = foldl (open_path disk) no_files pre"
  have c1: "camera_config_of m1 = []"
    using foldl_open_path_configs_none [OF pre, of no_files] by (simp add: m1_def no_files_def)
  define m2 where "m2 = open_path disk m1 p"
  have c2: "camera_config_of m2 = [(p, c)]"
    by (simp add: m2_def open_path_configs c c1)
  have f: "foldl (open_path disk) no_files paths = foldl (open_path disk) m2 post"
    by (simp add: paths m1_def m2_def)
  have "configs_agree disk (camera_config_of m2)"
    by (simp add: c2 configs_agree_def c)
  from foldl_open_path_hd [OF this, of post] c2
  show ?thesis unfolding f by (simp add: c)
qed

lemma foldl_open_path_events:
  "map_of (events_of (foldl (open_path disk) m paths)) q =
     (if q \<in> set paths \<and> first_event (disk q) \<noteq> None then first_event (disk q)
      else map_of (events_of m) q)"
proof (induction paths arbitrary: m)
  case Nil
  show ?case by simp
next
  case (Cons p paths)
  show ?case
    by (cases "first_event (disk p)") (auto simp: Cons.IH open_path_events update_conv')
qed

text \<open>
  Claim C8. Construction fails with \<open>EmptyInput\<close> on no paths; it fails with
  \<open>ConfigurationMissing\<close> when no substream yields a configuration record (a substream
  yields one when it has a first event and its configuration table has a first row);
  otherwise it succeeds, the canonical configuration is the record of the first path
  that yields one, and exactly the paths whose substream has a first event are buffered,
  each with that event: a substream without events is skipped without an error.
\<close>

theorem MultiFiles_init_outcomes:
  "(paths = [] \<longrightarrow> MultiFiles_init disk paths = Inl EmptyInput) \<and>
   (paths \<noteq> [] \<and> find (\<lambda>p. first_config (disk p) \<noteq> None) paths = None \<longrightarrow>
      MultiFiles_init disk paths = Inl ConfigurationMissing) \<and>
   (\<forall>p. paths \<noteq> [] \<and> find (\<lambda>p. first_config (disk p) \<noteq> None) paths = Some p \<longrightarrow>
      (\<exists>m. MultiFiles_init disk paths = Inr m
         \<and> camera_config m = first_config (disk p)
         \<and> (\<forall>q. map_of (events_of m) q =
                (if q \<in> set paths then first_event (disk q) else None))))"
proof (intro conjI allI impI)
  assume "paths = []"
  then show "MultiFiles_init disk paths = Inl EmptyInput"
    by (simp add: MultiFiles_init_def)
next
  assume a: "paths \<noteq> [] \<and> find (\<lambda>p. first_config (disk p) \<noteq> None) paths = None"
  then have "\<forall>p\<in>set paths. first_config (disk p) = None"
    by (auto simp: find_None_iff)
  from foldl_open_path_configs_none [OF this, of no_files]
  have "camera_config_of (foldl (open_path disk) no_files paths) = []"
    by (simp add: no_files_def)
  with a show "MultiFiles_init disk paths = Inl ConfigurationMissing"
    by (simp add: MultiFiles_init_def)
next
  fix p
  assume a: "paths \<noteq> [] \<and> find (\<lambda>p. first_config (disk p) \<noteq> None) paths = Some p"
  let ?m = "foldl (open_path disk) no_files paths"
  from a have f: "find (\<lambda>p. first_config (disk p) \<noteq> None) paths = Some p" ..
  from foldl_open_path_first [OF f]
  have ne: "camera_config_of ?m \<noteq> []"
    and hd: "Some (snd (hd (camera_config_of ?m))) = first_config (disk p)" by simp_all
  have i: "MultiFiles_init disk paths = Inr (?m\<lparr>camera_config := Some (snd (hd (camera_config_of ?m)))\<rparr>)"
    using a ne by (simp add: MultiFiles_init_def Let_def)
  have "\<forall>q. map_of (events_of ?m) q = (if q \<in> set paths then first_event (disk q) else None)"
    by (auto simp: foldl_open_path_events no_files_def)
  with i hd show "\<exists>m. MultiFiles_init disk paths = Inr m
         \<and> camera_config m = first_config (disk p)
         \<and> (\<forall>q. map_of (events_of m) q =
                (if q \<in> set paths then first_event (disk q) else None))"
    by simp
qed

lemma open_path_file:
  "\<exists>f. map_of (file_of (open_path disk m p)) p = Some f \<and> Events f = Events (disk p)
        \<and> Events_cursor f = (if Events (disk p) = [] then 0 else 1)"
  by (cases "Events (disk p)"; cases "CameraConfig (disk p)")
     (auto simp: open_path_def File_def next_Events_def next_CameraConfig_def Let_def update_conv'
           split: sum.splits option.splits list.splits if_splits)

lemma open_path_file_other:
  "q \<noteq> p \<Longrightarrow> map_of (file_of (open_path disk m p)) q = map_of (file_of m) q"
  by (cases "Events (disk p)"; cases "CameraConfig (disk p)")
     (auto simp: open_path_def File_def next_Events_def next_CameraConfig_def Let_def update_conv'
           split: sum.splits option.splits list.splits if_splits)

lemma open_path_inv:
  assumes i: "merger_inv m" and s: "sorted (map event_id (Events (disk p)))"
  shows "merger_inv (open_path disk m p)"
proof -
  obtain f where f: "map_of (file_of (open_path disk m p)) p = Some f"
    and fe: "Events f = Events (disk p)"
    and fc: "Events_cursor f = (if Events (disk p) = [] then 0 else 1)"
    using open_path_file [of disk m p] by blast
  have d: "distinct (map fst (events_of (open_path disk m p)))"
    using i by (auto simp: merger_inv_def open_path_events distinct_update split: option.splits)
  have "\<exists>g. map_of (file_of (open_path disk m p)) q = Some g \<and> sorted (map event_id (e # pending_rows g))"
    if q: "map_of (events_of (open_path disk m p)) q = Some e" for q e
  proof (cases "q = p")
    case False
    with q have "map_of (events_of m) q = Some e"
      by (auto simp: open_path_events update_conv' split: option.splits)
    with i obtain g where "map_of (file_of m) q = Some g" "sorted (map event_id (e # pending_rows g))"
      unfolding merger_inv_def by blast
    with False show ?thesis by (simp add: open_path_file_other)
  next
    case True
    show ?thesis
    proof (cases "Events (disk p)")
      case Nil
      then have "pending_rows f = []" using fe by (simp add: pending_rows_def)
      with f True show ?thesis by simp
    next
      case (Cons r rows)
      then have "first_event (disk p) = Some r" by (simp add: first_event_def)
      with q True have "e = r" by (simp add: open_path_events update_conv')
      moreover have "pending_rows f = rows" using fe fc Cons by (simp add: pending_rows_def)
      ultimately show ?thesis using f True s Cons by simp
    qed
  qed
  with d show ?thesis unfolding merger_inv_def by blast
qed

lemma foldl_open_path_inv:
  "merger_inv m \<Longrightarrow> \<forall>p\<in>set paths. sorted (map event_id (Events (disk p))) \<Longrightarrow>
   merger_inv (foldl (open_path disk) m paths)"
  by (induction paths arbitrary: m) (simp_all add: open_path_inv)

lemma MultiFiles_init_inv:
  assumes "MultiFiles_init disk paths = Inr m"
    and "\<forall>p\<in>set paths. sorted (map event_id (Events (disk p)))"
  shows "merger_inv m"
proof -
  have "merger_inv no_files" by (simp add: merger_inv_def no_files_def)
  from foldl_open_path_inv [OF this assms(2)]
  have "merger_inv (foldl (open_path disk) no_files paths)" .
  moreover from assms(1) have "events_of m = events_of (foldl (open_path disk) no_files paths)"
    "file_of m = file_of (foldl (open_path disk) no_files paths)"
    by (auto simp: MultiFiles_init_def Let_def split: if_splits)
  ultimately show ?thesis by (simp add: merger_inv_def)
qed

theorem MultiFiles_init_outcomes_witness:
  "\<exists>m. MultiFiles_init three_substreams [''e'', ''a'', ''b'', ''c''] = Inr m
      \<and> camera_config m = Some \<lparr>configuration_id = 7\<rparr>
      \<and> map_of (events_of m) ''e'' = None
      \<and> map_of (events_of m) ''a'' = Some (ev 1)"
proof -
  have f: "find (\<lambda>p. first_config (three_substreams p) \<noteq> None) [''e'', ''a'', ''b'', ''c''] = Some ''b''"
    by (simp add: first_config_def three_substreams_def)
  have c: "first_config (three_substreams ''b'') = Some \<lparr>configuration_id = 7\<rparr>"
    by (simp add: first_config_def three_substreams_def)
  have e: "first_event (three_substreams ''e'') = None" "first_event (three_substreams ''a'') = Some (ev 1)"
    by (simp_all add: first_event_def three_substreams_def)
  from MultiFiles_init_outcomes [of "[''e'', ''a'', ''b'', ''c'']" three_substreams] f
  obtain m where "MultiFiles_init three_substreams [''e'', ''a'', ''b'', ''c''] = Inr m"
    "camera_config m = first_config (three_substreams ''b'')"
    "\<forall>q. map_of (events_of m) q =
                (if q \<in> set [''e'', ''a'', ''b'', ''c''] then first_event (three_substreams q) else None)"
    by auto
  then show ?thesis using c e by simp
qed

subsection \<open>The merger: one call of \<^verbatim>\<open>next_event\<close>\<close>

lemma update_append_hit:
  "k \<notin> fst ` set ys \<Longrightarrow> AList.update k v (ys @ (k, w) # zs) = ys @ (k, v) # zs"
  by (induction ys) auto

lemma delete_append_hit:
  "k \<notin> fst ` set ys \<Longrightarrow> k \<notin> fst ` set zs \<Longrightarrow> AList.delete k (ys @ (k, w) # zs) = ys @ zs"
  by (induction ys) (auto simp: AList.delete_id)

lemma next_Events_stop: "next_Events f = Inl e \<Longrightarrow> pending_rows f = []"
  by (auto simp: next_Events_def pending_rows_def split: if_splits)

lemma next_event_step:
  assumes i: "merger_inv m" and ne: "events_of m \<noteq> []"
  shows "\<exists>p e m' ys zs f.
           next_event m = Inr (e, m')
         \<and> events_of m = ys @ (p, e) # zs
         \<and> (\<forall>y\<in>set ys. event_id e < event_id (snd y))
         \<and> (\<forall>z\<in>set zs. event_id e \<le> event_id (snd z))
         \<and> map_of (file_of m) p = Some f
         \<and> (case pending_rows f of
               [] \<Rightarrow> events_of m' = ys @ zs
             | r # rows \<Rightarrow> events_of m' = ys @ (p, r) # zs
                  \<and> (\<exists>f'. map_of (file_of m') p = Some f' \<and> pending_rows f' = rows))"
proof -
  from next_event_total [OF i ne] obtain e m' where n: "next_event m = Inr (e, m')" by blast
  from n obtain first rest p f where
    ev: "events_of m = first # rest" and
    p: "p = fst (min_key (\<lambda>item. event_id (snd item)) first rest)" and
    e: "map_of (events_of m) p = Some e" and
    f: "map_of (file_of m) p = Some f" and
    c: "(\<exists>e2 f'. next_Events f = Inr (e2, f') \<and>
        m' = m\<lparr>file_of := AList.update p f' (file_of m),
                events_of := AList.update p e2 (events_of m)\<rparr>)
     \<or> (next_Events f = Inl StopIteration \<and> m' = m\<lparr>events_of := AList.delete p (events_of m)\<rparr>)"
    by (rule next_event_cases)
  define mi where "mi = min_key (\<lambda>item. event_id (snd item)) first rest"
  from i have d: "distinct (map fst (events_of m))" by (simp add: merger_inv_def)
  obtain ys zs where
    s: "first # rest = ys @ mi # zs" and
    lt: "\<forall>y\<in>set ys. event_id (snd mi) < event_id (snd y)" and
    le: "\<forall>z\<in>set zs. event_id (snd mi) \<le> event_id (snd z)"
    using min_key_split [of first rest "\<lambda>item. event_id (snd item)"] unfolding mi_def by blast
  have "mi \<in> set (events_of m)" using s ev by simp
  then have "map_of (events_of m) (fst mi) = Some (snd mi)" using d by simp
  with e p have mi: "mi = (p, e)" by (simp add: mi_def prod_eq_iff)
  have split: "events_of m = ys @ (p, e) # zs" using s ev mi by simp
  from d split have py: "p \<notin> fst ` set ys" and pz: "p \<notin> fst ` set zs" by auto
  have "case pending_rows f of
               [] \<Rightarrow> events_of m' = ys @ zs
             | r # rows \<Rightarrow> events_of m' = ys @ (p, r) # zs
                  \<and> (\<exists>f'. map_of (file_of m') p = Some f' \<and> pending_rows f' = rows)"
    using c
  proof
    assume "\<exists>e2 f'. next_Events f = Inr (e2, f') \<and>
        m' = m\<lparr>file_of := AList.update p f' (file_of m),
                events_of := AList.update p e2 (events_of m)\<rparr>"
    then obtain e2 f' where ne: "next_Events f = Inr (e2, f')" and
      m': "m' = m\<lparr>file_of := AList.update p f' (file_of m),
                events_of := AList.update p e2 (events_of m)\<rparr>" by blast
    from next_Events_pending [OF ne] have "pending_rows f = e2 # pending_rows f'" .
    then show ?thesis
      by (simp add: m' split update_append_hit [OF py] update_conv')
  next
    assume "next_Events f = Inl StopIteration \<and> m' = m\<lparr>events_of := AList.delete p (events_of m)\<rparr>"
    then have "pending_rows f = []" and "m' = m\<lparr>events_of := AList.delete p (events_of m)\<rparr>"
      using next_Events_stop by blast+
    then show ?thesis by (simp add: split delete_append_hit [OF py pz])
  qed
  with n split lt le f mi show ?thesis by (auto simp del: split_paired_Ex)
qed

subsection \<open>The merger: the merged stream\<close>

lemma filter_removeAll: "filter P (removeAll p xs) = filter (\<lambda>q. P q \<and> q \<noteq> p) xs"
  by (induction xs) auto

lemma open_path_keys:
  "map fst (events_of (open_path disk m p)) =
     (if first_event (disk p) \<noteq> None \<and> p \<notin> set (map fst (events_of m))
      then map fst (events_of m) @ [p] else map fst (events_of m))"
  by (auto simp: open_path_events update_keys split: option.splits)

lemma foldl_open_path_keys:
  "map fst (events_of (foldl (open_path disk) m paths)) =
     map fst (events_of m) @
     filter (\<lambda>q. first_event (disk q) \<noteq> None \<and> q \<notin> set (map fst (events_of m)))
       (registration_order paths)"
proof (induction paths arbitrary: m)
  case Nil
  show ?case by simp
next
  case (Cons p paths)
  show ?case
    unfolding foldl_Cons Cons.IH open_path_keys
    by (auto simp: filter_removeAll intro: filter_cong)
qed

lemma MultiFiles_init_keys:
  assumes "MultiFiles_init disk paths = Inr m"
  shows "map fst (events_of m) = filter (\<lambda>q. first_event (disk q) \<noteq> None) (registration_order paths)"
proof -
  from assms have "events_of m = events_of (foldl (open_path disk) no_files paths)"
    by (auto simp: MultiFiles_init_def Let_def split: if_splits)
  then show ?thesis by (simp add: foldl_open_path_keys no_files_def)
qed

lemma iterated_inv: "iterated m0 m \<Longrightarrow> merger_inv m0 \<Longrightarrow> merger_inv m"
  by (induction rule: iterated.induct) (auto dest: next_event_inv)

lemma next_event_keys:
  assumes "next_event m = Inr (e, m')"
  shows "subseq (map fst (events_of m')) (map fst (events_of m))"
proof -
  from assms obtain first rest p f where
    e: "map_of (events_of m) p = Some e" and
    c: "(\<exists>e2 f'. next_Events f = Inr (e2, f') \<and>
        m' = m\<lparr>file_of := AList.update p f' (file_of m),
                events_of := AList.update p e2 (events_of m)\<rparr>)
     \<or> (next_Events f = Inl StopIteration \<and> m' = m\<lparr>events_of := AList.delete p (events_of m)\<rparr>)"
    by (rule next_event_cases)
  from e have k: "p \<in> set (map fst (events_of m))"
    by (metis map_of_eq_None_iff option.distinct(1) set_map)
  from c show ?thesis
  proof
    assume "\<exists>e2 f'. next_Events f = Inr (e2, f') \<and>
        m' = m\<lparr>file_of := AList.update p f' (file_of m),
                events_of := AList.update p e2 (events_of m)\<rparr>"
    then obtain e2 f' where "m' = m\<lparr>file_of := AList.update p f' (file_of m),
                events_of := AList.update p e2 (events_of m)\<rparr>" by blast
    then have "map fst (events_of m') = map fst (events_of m)"
      using k by (simp add: update_keys)
    then show ?thesis by simp
  next
    assume "next_Events f = Inl StopIteration \<and> m' = m\<lparr>events_of := AList.delete p (events_of m)\<rparr>"
    then show ?thesis by (simp add: delete_keys removeAll_filter_not_eq)
  qed
qed

lemma iterated_keys: "iterated m0 m \<Longrightarrow> subseq (map fst (events_of m)) (map fst (events_of m0))"
proof (induction rule: iterated.induct)
  case start
  show ?case by simp
next
  case (step m e m')
  from next_event_keys [OF step.hyps(2)] step.IH show ?case
    by (rule subseq_order.trans)
qed

text \<open>
  Claim C3. Let the merger be constructed over substreams that are each sorted by event
  id, and let any number of calls of \<^verbatim>\<open>next_event\<close> have returned. Then the next call
  raises \<^verbatim>\<open>StopIteration\<close> when no event is buffered; otherwise it returns a buffered
  event \<open>e\<close> of a path \<open>p\<close> whose id is smaller than the id of every event buffered
  before it and not larger than the id of any buffered behind it, where the buffer keeps
  the order of registration; it puts the next row of the file of \<open>p\<close> in the place of
  \<open>e\<close> and advances that file, or removes \<open>p\<close> from the buffer when the file has no
  row left. A pass over the merger yields its events in non-decreasing order of event id
  and ends with \<^verbatim>\<open>StopIteration\<close>.
\<close>

theorem merged_stream_in_event_id_order:
  assumes init: "MultiFiles_init disk paths = Inr m0"
    and srt: "\<forall>p\<in>set paths. sorted (map event_id (Events (disk p)))"
    and it: "iterated m0 m"
  shows "(events_of m = [] \<longrightarrow> next_event m = Inl StopIteration)
       \<and> (events_of m \<noteq> [] \<longrightarrow>
            (\<exists>p e m' ys zs f.
                next_event m = Inr (e, m')
              \<and> events_of m = ys @ (p, e) # zs
              \<and> (\<forall>y\<in>set ys. event_id e < event_id (snd y))
              \<and> (\<forall>z\<in>set zs. event_id e \<le> event_id (snd z))
              \<and> map_of (file_of m) p = Some f
              \<and> (case pending_rows f of
                    [] \<Rightarrow> events_of m' = ys @ zs
                  | r # rows \<Rightarrow> events_of m' = ys @ (p, r) # zs
                       \<and> (\<exists>f'. map_of (file_of m') p = Some f' \<and> pending_rows f' = rows))))
       \<and> subseq (map fst (events_of m)) (registration_order paths)
       \<and> sorted (map event_id (fst (drain m0)))
       \<and> next_event (snd (drain m0)) = Inl StopIteration"
proof -
  have i0: "merger_inv m0" using MultiFiles_init_inv [OF init srt] .
  have i: "merger_inv m" using iterated_inv [OF it i0] .
  have 1: "events_of m = [] \<longrightarrow> next_event m = Inl StopIteration"
    by (simp add: next_event_def)
  have 2: "events_of m \<noteq> [] \<longrightarrow>
            (\<exists>p e m' ys zs f.
                next_event m = Inr (e, m')
              \<and> events_of m = ys @ (p, e) # zs
              \<and> (\<forall>y\<in>set ys. event_id e < event_id (snd y))
              \<and> (\<forall>z\<in>set zs. event_id e \<le> event_id (snd z))
              \<and> map_of (file_of m) p = Some f
              \<and> (case pending_rows f of
                    [] \<Rightarrow> events_of m' = ys @ zs
                  | r # rows \<Rightarrow> events_of m' = ys @ (p, r) # zs
                       \<and> (\<exists>f'. map_of (file_of m') p = Some f' \<and> pending_rows f' = rows)))"
    using next_event_step [OF i] by blast
  have "subseq (map fst (events_of m0)) (registration_order paths)"
    unfolding MultiFiles_init_keys [OF init] by simp
  with iterated_keys [OF it]
  have 3: "subseq (map fst (events_of m)) (registration_order paths)"
    by (rule subseq_order.trans)
  obtain lo :: int where lo: "buffered_from lo m0"
  proof -
    have "buffered_from (Min (insert 0 (event_id ` snd ` set (events_of m0)))) m0"
      unfolding buffered_from_def
      by (auto dest!: map_of_SomeD intro!: Min_le) (metis image_eqI snd_conv)
    then show ?thesis by (rule that)
  qed
  from drain_sorted_from [OF i0 lo] have 4: "sorted (map event_id (fst (drain m0)))" by simp
  from drain_end [OF i0] have 5: "next_event (snd (drain m0)) = Inl StopIteration"
    by (simp add: next_event_def)
  from 1 2 3 4 5 show ?thesis by blast
qed

theorem merged_stream_in_event_id_order_witness:
  "(case MultiFiles_init three_substreams [''a'', ''b'', ''c''] of
      Inl _ \<Rightarrow> False
    | Inr m0 \<Rightarrow>
        sorted (map event_id (fst (drain m0)))
      \<and> next_event (snd (drain m0)) = Inl StopIteration
      \<and> subseq (map fst (events_of m0)) [''a'', ''b'', ''c''])"
proof -
  have "\<not> isl (MultiFiles_init three_substreams [''a'', ''b'', ''c''])"
    by code_simp
  then obtain m0 where init: "MultiFiles_init three_substreams [''a'', ''b'', ''c''] = Inr m0"
    by (cases "MultiFiles_init three_substreams [''a'', ''b'', ''c'']") auto
  have srt: "\<forall>p\<in>set [''a'', ''b'', ''c'']. sorted (map event_id (Events (three_substreams p)))"
    by (simp add: three_substreams_def ev_def)
  from merged_stream_in_event_id_order [OF init srt iterated.start]
  show ?thesis by (simp add: init)
qed

lemma rewind_cursors:
  "events_of (rewind m) = events_of m
   \<and> camera_config (rewind m) = camera_config m
   \<and> map fst (file_of (rewind m)) = map fst (file_of m)
   \<and> map (\<lambda>pf. Events (snd pf)) (file_of (rewind m)) = map (\<lambda>pf. Events (snd pf)) (file_of m)
   \<and> map (\<lambda>pf. Events_cursor (snd pf)) (file_of (rewind m)) = map (\<lambda>pf. 0) (file_of m)"
  by (simp add: rewind_def case_prod_beta)

lemma pass_after_rewind:
  assumes "merger_inv m"
  shows "fst (drain (rewind (snd (drain m)))) = []"
proof -
  from drain_end [OF assms] have "events_of (rewind (snd (drain m))) = []"
    by (simp add: rewind_cursors)
  then have "next_event (rewind (snd (drain m))) = Inl StopIteration"
    by (simp add: next_event_def)
  then show ?thesis by (subst drain.simps) simp
qed

text \<open>
  Claim C7, on the substream \<open>''b''\<close> with the event ids 2, 5, 8: the first pass yields
  them, and the pass after \<^verbatim>\<open>rewind()\<close> yields nothing. \<^verbatim>\<open>rewind\<close> moves the cursors of the
  files only; the buffer \<^verbatim>\<open>_events\<close>, which \<^verbatim>\<open>__init__\<close> fills before the first pass, is
  empty after that pass and \<^verbatim>\<open>rewind\<close> does not fill it again.
\<close>

theorem rewind_second_pass_empty:
  "(case MultiFiles_init three_substreams [''b''] of
      Inl _ \<Rightarrow> False
    | Inr m \<Rightarrow>
        map event_id (fst (drain m)) = [2, 5, 8]
      \<and> map (\<lambda>pf. Events_cursor (snd pf)) (file_of (rewind (snd (drain m)))) = [0]
      \<and> map event_id (fst (drain (rewind (snd (drain m))))) = [])"
  by code_simp

subsection \<open>The reconciler: an event without the external clock\<close>

lemma and_2_bit_1: "(x :: int) AND 2 \<noteq> 0 \<longleftrightarrow> bit x 1"
  using bit_iff_and_push_bit_not_eq_0 [of x 1] by simp

lemma and_1_bit_0: "(x :: int) AND 1 \<noteq> 0 \<longleftrightarrow> bit x 0"
  using bit_iff_and_push_bit_not_eq_0 [of x 0] by simp

text \<open>
  Claim C5. When the module of the telescope is found in the event (the step before,
  which raises otherwise) and bit 1 of the presence mask is clear, the call returns
  \<^verbatim>\<open>NAN_TIME\<close> and logs one warning, whatever the counters of the event are, for every
  arithmetic; the state of the calculator and the event are as before the call, and a
  run goes on with the next event in that same state.
\<close>

theorem ucts_unavailable_gives_NAN_TIME:
  assumes "module_index_of (module_ids lst) (dragon_module_id cfg) = Inr i"
    and "\<not> bit (extdevices_presence lst) 1"
  shows "reconcile F cfg st lst =
           \<lparr>returned = Inr NAN_TIME, state_after = st, event_after = lst,
            logged = [Warning_ucts_unavailable (obs_id lst) (index_event_id lst)]\<rparr>
       \<and> reconcile_all F cfg st (lst # rest) = reconcile F cfg st lst # reconcile_all F cfg st rest"
proof -
  from assms(2) have "\<not> ucts_available lst"
    by (simp add: ucts_available_def and_2_bit_1)
  with assms(1) have r: "reconcile F cfg st lst =
           \<lparr>returned = Inr NAN_TIME, state_after = st, event_after = lst,
            logged = [Warning_ucts_unavailable (obs_id lst) (index_event_id lst)]\<rparr>"
    by (simp add: reconcile_def)
  then show ?thesis by (simp add: Let_def)
qed

lemma demo_module_index: "module_index_of (module_ids demo_event) (dragon_module_id demo_config) = Inr 1"
  by (simp add: module_index_of_def demo_event_def demo_config_def upt_rec)

theorem ucts_unavailable_gives_NAN_TIME_witness:
  "returned (reconcile exact_arithmetic demo_config no_reference
               (demo_event\<lparr>extdevices_presence := 1\<rparr>)) = Inr NAN_TIME
   \<and> state_after (reconcile exact_arithmetic demo_config no_reference
               (demo_event\<lparr>extdevices_presence := 1\<rparr>)) = no_reference"
proof -
  have m: "module_index_of (module_ids (demo_event\<lparr>extdevices_presence := 1\<rparr>))
             (dragon_module_id demo_config) = Inr 1"
    using demo_module_index by simp
  have b: "\<not> bit (extdevices_presence (demo_event\<lparr>extdevices_presence := 1\<rparr>)) 1"
    by simp
  from ucts_unavailable_gives_NAN_TIME [OF m b, of exact_arithmetic no_reference "[]"]
  show ?thesis by simp
qed

subsection \<open>The reconciler: the states of a run\<close>






lemma reconcile_cases [case_names no_module no_ucts clock_error checked]:
  obtains
    e where "module_index_of (module_ids lst) (dragon_module_id cfg) = Inl e"
      "reconcile F cfg st lst = \<lparr>returned = Inl e, state_after = st, event_after = lst, logged = []\<rparr>"
  | i where "module_index_of (module_ids lst) (dragon_module_id cfg) = Inr i"
      "\<not> ucts_available lst"
      "reconcile F cfg st lst =
         \<lparr>returned = Inr NAN_TIME, state_after = st, event_after = lst,
          logged = [Warning_ucts_unavailable (obs_id lst) (index_event_id lst)]\<rparr>"
  | i e st1 log1 where "module_index_of (module_ids lst) (dragon_module_id cfg) = Inr i"
      "ucts_available lst"
      "clock_times F cfg st lst i = (Inl e, st1, log1)"
      "reconcile F cfg st lst =
         \<lparr>returned = Inl e, state_after = st1, event_after = lst, logged = log1\<rparr>"
  | i d t st1 log1 ts tt st2 lst2 res st3 lst3 log3 where
      "module_index_of (module_ids lst) (dragon_module_id cfg) = Inr i"
      "ucts_available lst"
      "clock_times F cfg st lst i = (Inr (d, t), st1, log1)"
      "realign st1 lst = (ts, tt, st2, lst2)"
      "check_jump F d ts tt st2 lst2 = (res, st3, lst3, log3)"
      "reconcile F cfg st lst =
         \<lparr>returned =
            (case res of
               Inl e \<Rightarrow> Inl e
             | Inr ucts_time \<Rightarrow>
                 Inr (Time_unix_tai
                        (case timestamp cfg of Ucts \<Rightarrow> ucts_time | Dragon \<Rightarrow> d | Tib \<Rightarrow> t))),
          state_after = st3, event_after = lst3,
          logged =
            (case res of
               Inl e \<Rightarrow> log1 @ log3
             | Inr ucts_time \<Rightarrow> log1 @ log3 @ [Debug_times t d ucts_time])\<rparr>"
proof (cases "module_index_of (module_ids lst) (dragon_module_id cfg)")
  case (Inl e)
  then show ?thesis using that(1) by (simp add: reconcile_def)
next
  case (Inr i)
  show ?thesis
  proof (cases "ucts_available lst")
    case False
    with Inr show ?thesis using that(2) by (simp add: reconcile_def)
  next
    case True
    obtain r st1 log1 where c: "clock_times F cfg st lst i = (r, st1, log1)"
      by (cases "clock_times F cfg st lst i") auto
    show ?thesis
    proof (cases r)
      case (Inl e)
      with Inr True c show ?thesis using that(3) by (simp add: reconcile_def)
    next
      case r: (Inr dt)
      obtain d t where dt: "dt = (d, t)" by (cases dt)
      obtain ts tt st2 lst2 where ra: "realign st1 lst = (ts, tt, st2, lst2)"
        by (cases "realign st1 lst") auto
      obtain res st3 lst3 log3 where cj: "check_jump F d ts tt st2 lst2 = (res, st3, lst3, log3)"
        by (cases "check_jump F d ts tt st2 lst2") auto
      have "reconcile F cfg st lst =
         \<lparr>returned =
            (case res of
               Inl e \<Rightarrow> Inl e
             | Inr ucts_time \<Rightarrow>
                 Inr (Time_unix_tai
                        (case timestamp cfg of Ucts \<Rightarrow> ucts_time | Dragon \<Rightarrow> d | Tib \<Rightarrow> t))),
          state_after = st3, event_after = lst3,
          logged =
            (case res of
               Inl e \<Rightarrow> log1 @ log3
             | Inr ucts_time \<Rightarrow> log1 @ log3 @ [Debug_times t d ucts_time])\<rparr>"
        using Inr True c r dt ra cj by (cases res) (simp_all add: reconcile_def)
      with Inr True c r dt ra cj show ?thesis using that(4) by simp
    qed
  qed
qed





subsection \<open>The reconciler: the test for a jump\<close>





lemma exact_ops:
  "f_nan exact_arithmetic = None"
  "f_of_int exact_arithmetic i = Some (of_int i)"
  "f_add exact_arithmetic (Some a) (Some b) = Some (a + b)"
  "f_sub exact_arithmetic (Some a) (Some b) = Some (a - b)"
  "f_mul exact_arithmetic (Some a) (Some b) = Some (a * b)"
  "f_gt exact_arithmetic (Some a) (Some b) \<longleftrightarrow> b < a"
  "f_gt exact_arithmetic x None \<longleftrightarrow> False"
  "f_gt exact_arithmetic None y \<longleftrightarrow> False"
  "f_sub exact_arithmetic x None = None"
  "f_sub exact_arithmetic None y = None"
  "f_int exact_arithmetic (Some a) = Some (if 0 \<le> a then \<lfloor>a\<rfloor> else \<lceil>a\<rceil>)"
  "f_lit exact_arithmetic Lit_1e_9 = Some (1 / 1000000000)"
  "f_lit exact_arithmetic Lit_1e_7 = Some (1 / 10000000)"
  "f_lit exact_arithmetic Lit_1e_6 = Some (1 / 1000000)"
  "f_lit exact_arithmetic Lit_1e9 = Some 1000000000"
  "f_lit exact_arithmetic Lit_1e6 = Some 1000000"
  by (simp_all add: exact_arithmetic_def lift2_def split: option.splits)







subsection \<open>The reconciler: the queue of samples\<close>











subsection \<open>The reconciler: the first event as the reference\<close>

lemma realign_empty:
  "previous_ucts_timestamps st = [] \<Longrightarrow>
   realign st lst = (ucts_timestamp lst, ucts_trigger_type lst, st, lst)"
  by (simp add: realign_def)

lemma check_jump_no_jump:
  "\<not> f_gt F (f_sub F (ucts_time_of F ts) d) (f_lit F Lit_1e_6) \<Longrightarrow>
   check_jump F d ts tt st lst = (Inr (ucts_time_of F ts), st, lst, [])"
  by (simp add: check_jump_def Let_def)




lemma exact_nan_discrepancy:
  "\<forall>x c. \<not> f_gt exact_arithmetic (f_sub exact_arithmetic x (f_nan exact_arithmetic)) c"
  by (simp add: exact_ops)


subsection \<open>The reconciler: a TIB reference without a Dragon reference\<close>

lemma counter_times_no_dragon:
  assumes "\<not> has_dragon_reference st" and "counter_times F st lst i = Inr (d, t)"
  shows "d = f_nan F"
  using assms by (auto simp: counter_times_def split: if_splits option.splits)

lemma reconcile_tib_only:
  assumes nanp: "\<forall>x c. \<not> f_gt F (f_sub F x (f_nan F)) c"
    and t: "tib_only st"
  shows "state_after (reconcile F cfg st lst) = st
       \<and> event_after (reconcile F cfg st lst) = lst
       \<and> (\<forall>e d x. Warning_ucts_jump e d x \<notin> set (logged (reconcile F cfg st lst)))
       \<and> (\<forall>a b. Critical_dragon_reference a b \<notin> set (logged (reconcile F cfg st lst)))
       \<and> (\<forall>a b. Critical_tib_reference a b \<notin> set (logged (reconcile F cfg st lst)))
       \<and> (\<forall>t d u. Debug_times t d u \<in> set (logged (reconcile F cfg st lst)) \<longrightarrow> d = f_nan F)"
proof -
  from t have flags: "has_tib_reference st" "\<not> has_dragon_reference st"
    and q: "previous_ucts_timestamps st = []" by (simp_all add: tib_only_def)
  have ct: "clock_times F cfg st lst i = (counter_times F st lst i, st, [])" for i
    using flags by (simp add: clock_times_def)
  show ?thesis
  proof (cases rule: reconcile_cases [of lst cfg F st])
    case (no_module e)
    then show ?thesis by simp
  next
    case (no_ucts i)
    then show ?thesis by simp
  next
    case (clock_error i e st1 log1)
    with ct [of i] show ?thesis by simp
  next
    case (checked i d tt st1 log1 ts tg st2 lst2 res st3 lst3 log3)
    from checked(3) ct [of i] have c: "counter_times F st lst i = Inr (d, tt)" "st1 = st" "log1 = []"
      by auto
    from counter_times_no_dragon [OF flags(2) c(1)] have d: "d = f_nan F" .
    from checked(4) c(2) q have r: "ts = ucts_timestamp lst" "st2 = st" "lst2 = lst"
      by (auto simp: realign_empty)
    from nanp d have "\<not> f_gt F (f_sub F (ucts_time_of F ts) d) (f_lit F Lit_1e_6)" by simp
    from check_jump_no_jump [OF this, of tg st2 lst2] checked(5)
    have "res = Inr (ucts_time_of F ts)" "st3 = st2" "lst3 = lst2" "log3 = []" by auto
    with checked(6) c r d show ?thesis by simp
  qed
qed

text \<open>
  Claim C10. Let the configuration supply the TIB reference and not the whole Dragon
  reference, and let the arithmetic be one in which a difference with \<^verbatim>\<open>np.nan\<close> exceeds
  nothing. Then over every run from the constructed state, at every call: the state is
  left as it was constructed (TIB reference established, Dragon reference not, both
  queues empty), so the branch of the first event never runs and logs nothing; the
  Dragon time, as the call logs it, is \<^verbatim>\<open>np.nan\<close>; no jump is declared; and the event is
  left as it came, its two external-clock fields included.
\<close>

theorem tib_reference_only_never_jumps:
  assumes nanp: "\<forall>x c. \<not> f_gt F (f_sub F x (f_nan F)) c"
    and init: "(EventTimeCalculator_init cfg :: error + calc_state \<times> 'f log_record list) = Inr (st0, lg)"
    and tib: "ucts_t0_tib cfg \<noteq> None \<and> tib_counter0 cfg \<noteq> None"
    and nodragon: "ucts_t0_dragon cfg = None \<or> dragon_counter0 cfg = None"
  shows "has_tib_reference st0 \<and> \<not> has_dragon_reference st0
       \<and> previous_ucts_timestamps st0 = [] \<and> previous_ucts_trigger_types st0 = []
       \<and> (\<forall>k<length (reconcile_all F cfg st0 evs).
            state_after (reconcile_all F cfg st0 evs ! k) = st0
          \<and> event_after (reconcile_all F cfg st0 evs ! k) = evs ! k
          \<and> (\<forall>e d x. Warning_ucts_jump e d x \<notin> set (logged (reconcile_all F cfg st0 evs ! k)))
          \<and> (\<forall>a b. Critical_dragon_reference a b \<notin> set (logged (reconcile_all F cfg st0 evs ! k)))
          \<and> (\<forall>a b. Critical_tib_reference a b \<notin> set (logged (reconcile_all F cfg st0 evs ! k)))
          \<and> (\<forall>t d u. Debug_times t d u \<in> set (logged (reconcile_all F cfg st0 evs ! k))
                \<longrightarrow> d = f_nan F))"
proof -
  from init tib nodragon have t0: "tib_only st0"
    by (auto simp: EventTimeCalculator_init_def Let_def tib_only_def timestamp_eq_str_def
          split: if_splits)
  have run: "\<forall>k<length (reconcile_all F cfg st evs).
            state_after (reconcile_all F cfg st evs ! k) = st
          \<and> event_after (reconcile_all F cfg st evs ! k) = evs ! k
          \<and> (\<forall>e d x. Warning_ucts_jump e d x \<notin> set (logged (reconcile_all F cfg st evs ! k)))
          \<and> (\<forall>a b. Critical_dragon_reference a b \<notin> set (logged (reconcile_all F cfg st evs ! k)))
          \<and> (\<forall>a b. Critical_tib_reference a b \<notin> set (logged (reconcile_all F cfg st evs ! k)))
          \<and> (\<forall>t d u. Debug_times t d u \<in> set (logged (reconcile_all F cfg st evs ! k))
                \<longrightarrow> d = f_nan F)"
    if "tib_only st" for st
    using that
  proof (induction evs)
    case Nil
    show ?case by simp
  next
    case (Cons lst rest)
    note one = reconcile_tib_only [OF nanp Cons.prems, of cfg lst]
    show ?case
    proof (intro allI impI)
      fix k assume k: "k < length (reconcile_all F cfg st (lst # rest))"
      show "state_after (reconcile_all F cfg st (lst # rest) ! k) = st
          \<and> event_after (reconcile_all F cfg st (lst # rest) ! k) = (lst # rest) ! k
          \<and> (\<forall>e d x. Warning_ucts_jump e d x \<notin> set (logged (reconcile_all F cfg st (lst # rest) ! k)))
          \<and> (\<forall>a b. Critical_dragon_reference a b \<notin> set (logged (reconcile_all F cfg st (lst # rest) ! k)))
          \<and> (\<forall>a b. Critical_tib_reference a b \<notin> set (logged (reconcile_all F cfg st (lst # rest) ! k)))
          \<and> (\<forall>t d u. Debug_times t d u \<in> set (logged (reconcile_all F cfg st (lst # rest) ! k))
                \<longrightarrow> d = f_nan F)"
      proof (cases k)
        case 0
        with one show ?thesis by (simp add: Let_def)
      next
        case (Suc j)
        with k obtain x where ret: "returned (reconcile F cfg st lst) = Inr x"
          by (cases "returned (reconcile F cfg st lst)") (auto simp: Let_def)
        with one have unfold: "reconcile_all F cfg st (lst # rest)
            = reconcile F cfg st lst # reconcile_all F cfg st rest"
          by (simp add: Let_def)
        from k Suc have "j < length (reconcile_all F cfg st rest)" unfolding unfold by simp
        with Cons.IH [OF Cons.prems] show ?thesis unfolding unfold Suc by simp
      qed
    qed
  qed
  from t0 run [OF t0] show ?thesis by (simp add: tib_only_def)
qed

theorem tib_reference_only_never_jumps_witness:
  "state_after (reconcile_all exact_arithmetic tib_calibration tib_reference_only [late_event] ! 0)
     = tib_reference_only
   \<and> event_after (reconcile_all exact_arithmetic tib_calibration tib_reference_only [late_event] ! 0)
     = late_event
   \<and> previous_ucts_timestamps tib_reference_only = []"
proof -
  have init: "(EventTimeCalculator_init tib_calibration
                 :: error + calc_state \<times> real option log_record list)
                = Inr (tib_reference_only, [])"
    by (simp add: EventTimeCalculator_init_def tib_calibration_def demo_config_def
          tib_reference_only_def timestamp_eq_str_def)
  have tib: "ucts_t0_tib tib_calibration \<noteq> None \<and> tib_counter0 tib_calibration \<noteq> None"
    by (simp add: tib_calibration_def demo_config_def)
  have nodragon: "ucts_t0_dragon tib_calibration = None \<or> dragon_counter0 tib_calibration = None"
    by (simp add: tib_calibration_def)
  have len: "0 < length (reconcile_all exact_arithmetic tib_calibration tib_reference_only [late_event])"
    by (simp add: Let_def)
  from tib_reference_only_never_jumps [OF exact_nan_discrepancy init tib nodragon, of "[late_event]"] len
  show ?thesis by simp
qed

subsection \<open>The reconciler: the reference error\<close>

lemma EventTimeCalculator_init_returns:
  "\<exists>st lg. (EventTimeCalculator_init cfg :: error + calc_state \<times> 'f log_record list) = Inr (st, lg)"
  by (simp add: EventTimeCalculator_init_def Let_def timestamp_eq_str_def)

lemma clock_times_not_MissingReference:
  "fst (clock_times F cfg st lst i) \<noteq> Inl MissingReference"
  by (auto simp: clock_times_def first_event_reference_def counter_times_def calc_dragon_time_def
        item_def Let_def timestamp_eq_str_def
        split: sum.splits option.splits if_splits prod.splits)

lemma check_jump_not_MissingReference:
  "fst (check_jump F d ts tt st lst) \<noteq> Inl MissingReference"
  by (auto simp: check_jump_def Let_def split: option.splits)

lemma reconcile_not_MissingReference:
  "returned (reconcile F cfg st lst) \<noteq> Inl MissingReference"
proof (cases rule: reconcile_cases [of lst cfg F st])
  case (no_module e)
  then have "e = IndexError"
    by (auto simp: module_index_of_def split: list.splits)
  with no_module show ?thesis by simp
next
  case (no_ucts i)
  then show ?thesis by simp
next
  case (clock_error i e st1 log1)
  with clock_times_not_MissingReference [of F cfg st lst i] show ?thesis by simp
next
  case (checked i d t st1 log1 ts tt st2 lst2 res st3 lst3 log3)
  with check_jump_not_MissingReference [of F d ts tt st2 lst2] show ?thesis
    by (cases res) simp_all
qed


end
